theory Spec2Isabelle
  imports Main "HOL-Library.Monad_Syntax"
begin

section \<open>The Node store\<close>

text \<open>
  The Go package keeps a document as a graph of \<^verbatim>\<open>Node\<close> structs linked by pointers:
  \<^verbatim>\<open>Children []*Node\<close> downwards and \<^verbatim>\<open>Parent *Node\<close> upwards. The navigation and
  mutation methods of \<^verbatim>\<open>gml.go\<close> are modelled over an explicit store. A pointer is an
  optional address (\<open>None\<close> is Go's \<^verbatim>\<open>nil\<close>); a Go map is a partial function, and a
  \<^verbatim>\<open>nil\<close> map is \<open>None\<close>.
\<close>

type_synonym addr = nat
type_synonym ptr = "addr option"

record Node =
  Tag :: string
  Parent :: ptr
  Children :: "ptr list"
  InnerText :: string
  Attributes :: "(string \<rightharpoonup> string) option"

text \<open>Go's zero value of the struct, as \<^verbatim>\<open>&Node{}\<close> allocates it.\<close>

definition zero_Node :: Node where
  "zero_Node = \<lparr>Tag = [], Parent = None, Children = [], InnerText = [], Attributes = None\<rparr>"

text \<open>
  The store maps every address to a struct; the addresses below \<open>nxt\<close> are the ones
  allocated so far, and an allocation takes the address \<open>nxt\<close>.
\<close>

record store =
  heap :: "addr \<Rightarrow> Node"
  nxt :: addr

definition alloc :: "store \<Rightarrow> Node \<Rightarrow> store \<times> addr" where
  "alloc s v = (s\<lparr>heap := (heap s)(nxt s := v), nxt := Suc (nxt s)\<rparr>, nxt s)"

subsection \<open>FindChild\<close>

text \<open>
  \<^verbatim>\<open>for _, child := range n.Children { if found := child.FindChild(tag); found != nil
  { return found } }; return nil\<close>: the loop over the children, with the recursive call
  as a parameter.
\<close>

primrec first_found :: "(ptr \<Rightarrow> ptr option) \<Rightarrow> ptr list \<Rightarrow> ptr option" where
  "first_found f [] = Some None"
| "first_found f (c # cs) =
     Option.bind (f c) (\<lambda>found. if found \<noteq> None then Some found else first_found f cs)"

lemma first_found_mono [partial_function_mono]:
  assumes "\<And>c. mono_option (\<lambda>f. F f c)"
  shows "mono_option (\<lambda>f. first_found (F f) cs)"
  using assms by (induction cs) (auto intro!: partial_function_mono)

text \<open>
  The search follows pointers, so on a store with a cycle of children it need not return;
  the outer \<open>option\<close> is \<open>None\<close> exactly then, and \<open>Some r\<close> is the returned pointer \<open>r\<close>.
\<close>

partial_function (option) FindChild :: "(addr \<Rightarrow> Node) \<Rightarrow> ptr \<Rightarrow> string \<Rightarrow> ptr option" where
  "FindChild h n tag =
     (case n of
        None \<Rightarrow> Some None
      | Some a \<Rightarrow>
          if Tag (h a) = tag then Some (Some a)
          else first_found (\<lambda>child. FindChild h child tag) (Children (h a)))"

subsection \<open>Subtrees and pre-order\<close>

text \<open>
  What a search started at a pointer visits: \<open>Absent\<close> under a nil pointer, and under an
  address the unfolding of its children, one by one. A pointer has such an unfolding when
  no cycle of children is reachable from it.
\<close>

datatype subtree = Absent | Sub addr "subtree list"

fun unfolds :: "(addr \<Rightarrow> Node) \<Rightarrow> ptr \<Rightarrow> subtree \<Rightarrow> bool" where
  "unfolds h p Absent = (p = None)"
| "unfolds h p (Sub a ts) = (p = Some a \<and> list_all2 (unfolds h) (Children (h a)) ts)"

text \<open>Depth-first pre-order: a node before its descendants, the children left to right.\<close>

fun preorder :: "subtree \<Rightarrow> addr list" where
  "preorder Absent = []"
| "preorder (Sub a ts) = a # concat (map preorder ts)"

subsection \<open>AppendChild, CreatePath\<close>

text \<open>
  \<^verbatim>\<open>node.Parent = n; n.Children = append(n.Children, node); return node\<close>. Receiver and
  argument are allocated nodes (on a nil one the first field access panics).
\<close>

definition AppendChild :: "store \<Rightarrow> addr \<Rightarrow> addr \<Rightarrow> store \<times> addr" where
  "AppendChild s n node =
     (let h1 = (heap s)(node := (heap s node)\<lparr>Parent := Some n\<rparr>);
          h2 = h1(n := (h1 n)\<lparr>Children := Children (h1 n) @ [Some node]\<rparr>)
      in (s\<lparr>heap := h2\<rparr>, node))"

text \<open>
  \<^verbatim>\<open>for _, tag := range path { currentNode = currentNode.AppendChild(&Node{Tag: tag}) }\<close>
\<close>

fun CreatePath :: "store \<Rightarrow> addr \<Rightarrow> string list \<Rightarrow> store \<times> addr" where
  "CreatePath s currentNode [] = (s, currentNode)"
| "CreatePath s currentNode (tag # path) =
     (let (s1, fresh) = alloc s (zero_Node\<lparr>Tag := tag\<rparr>);
          (s2, child) = AppendChild s1 currentNode fresh
      in CreatePath s2 child path)"

subsection \<open>RemoveChildrenWithTag, CreateUniquePath\<close>

text \<open>Reading a field through a nil pointer panics.\<close>

datatype panic = NilDereference

text \<open>
  \<^verbatim>\<open>for _, child := range n.Children { if child.Tag != tag { newChildren =
  append(newChildren, child) } }\<close>, with \<open>newChildren\<close> as the accumulator.
\<close>

fun remove_loop :: "(addr \<Rightarrow> Node) \<Rightarrow> string \<Rightarrow> ptr list \<Rightarrow> ptr list \<Rightarrow> panic + ptr list" where
  "remove_loop h tag newChildren [] = Inr newChildren"
| "remove_loop h tag newChildren (None # cs) = Inl NilDereference"
| "remove_loop h tag newChildren (Some child # cs) =
     remove_loop h tag
       (if Tag (h child) \<noteq> tag then newChildren @ [Some child] else newChildren) cs"

definition RemoveChildrenWithTag :: "store \<Rightarrow> addr \<Rightarrow> string \<Rightarrow> panic + store" where
  "RemoveChildrenWithTag s n tag =
     (case remove_loop (heap s) tag [] (Children (heap s n)) of
        Inl p \<Rightarrow> Inl p
      | Inr newChildren \<Rightarrow>
          Inr (s\<lparr>heap := (heap s)(n := (heap s n)\<lparr>Children := newChildren\<rparr>)\<rparr>))"

text \<open>
  \<^verbatim>\<open>if len(path) == 0 { return n }; n.RemoveChildrenWithTag(path[0]);
  return n.CreatePath(path...)\<close>
\<close>

definition CreateUniquePath :: "store \<Rightarrow> addr \<Rightarrow> string list \<Rightarrow> panic + store \<times> addr" where
  "CreateUniquePath s n path =
     (if path = [] then Inr (s, n)
      else case RemoveChildrenWithTag s n (hd path) of
             Inl p \<Rightarrow> Inl p
           | Inr s1 \<Rightarrow> Inr (CreatePath s1 n path))"

subsection \<open>EnsurePath\<close>

text \<open>
  The inner loop \<^verbatim>\<open>for _, child := range currentNode.Children { if child.Tag == tag
  { currentNode = child; found = true; break } }\<close>: the first child with the tag, or
  \<open>None\<close> when \<open>found\<close> stays false.
\<close>

fun first_with_tag :: "(addr \<Rightarrow> Node) \<Rightarrow> string \<Rightarrow> ptr list \<Rightarrow> panic + ptr" where
  "first_with_tag h tag [] = Inr None"
| "first_with_tag h tag (None # cs) = Inl NilDereference"
| "first_with_tag h tag (Some child # cs) =
     (if Tag (h child) = tag then Inr (Some child) else first_with_tag h tag cs)"

text \<open>
  The outer loop over \<open>path\<close>; on the first miss at index \<open>i\<close> the rest \<^verbatim>\<open>path[i:]\<close>,
  which starts with the missed tag, is created and returned.
\<close>

fun EnsurePath :: "store \<Rightarrow> addr \<Rightarrow> string list \<Rightarrow> panic + store \<times> addr" where
  "EnsurePath s currentNode [] = Inr (s, currentNode)"
| "EnsurePath s currentNode (tag # path) =
     (case first_with_tag (heap s) tag (Children (heap s currentNode)) of
        Inl p \<Rightarrow> Inl p
      | Inr (Some child) \<Rightarrow> EnsurePath s child path
      | Inr None \<Rightarrow> Inr (CreatePath s currentNode (tag # path)))"

subsection \<open>Well-formed stores\<close>

text \<open>
  Go has no dangling pointers: what an allocated node points to is allocated. The data
  model also asks that no children sequence holds a nil entry.
\<close>

definition closed :: "store \<Rightarrow> bool" where
  "closed s = (\<forall>a<nxt s. \<forall>c. Some c \<in> set (Children (heap s a)) \<longrightarrow> c < nxt s)"

definition no_nil_children :: "store \<Rightarrow> bool" where
  "no_nil_children s = (\<forall>a<nxt s. None \<notin> set (Children (heap s a)))"

text \<open>Reachability from a node by following children pointers.\<close>

inductive reachable :: "(addr \<Rightarrow> Node) \<Rightarrow> addr \<Rightarrow> addr \<Rightarrow> bool" for h a where
  reach_self: "reachable h a a"
| reach_child: "reachable h a b \<Longrightarrow> Some c \<in> set (Children (h b)) \<Longrightarrow> reachable h a c"

subsection \<open>Auxiliary notions for the statements\<close>

text \<open>A child pointer carries a tag when it is not nil and the node it points to has the tag.\<close>

definition has_tag :: "(addr \<Rightarrow> Node) \<Rightarrow> string \<Rightarrow> ptr \<Rightarrow> bool" where
  "has_tag h tag p = (case p of None \<Rightarrow> False | Some c \<Rightarrow> Tag (h c) = tag)"

text \<open>One round of the loop of CreatePath: allocate \<^verbatim>\<open>&Node{Tag: tag}\<close> and append it.\<close>

definition grow :: "store \<Rightarrow> addr \<Rightarrow> string \<Rightarrow> store" where
  "grow s cur tag = fst (AppendChild (fst (alloc s (zero_Node\<lparr>Tag := tag\<rparr>))) cur (nxt s))"

text \<open>
  The read-only part of EnsurePath: walk down from a node, at each tag taking the first
  child that carries it; \<open>Inr None\<close> when some tag has no such child.
\<close>

fun lookup_path :: "(addr \<Rightarrow> Node) \<Rightarrow> addr \<Rightarrow> string list \<Rightarrow> panic + ptr" where
  "lookup_path h cur [] = Inr (Some cur)"
| "lookup_path h cur (tag # path) =
     (case first_with_tag h tag (Children (h cur)) of
        Inl p \<Rightarrow> Inl p
      | Inr None \<Rightarrow> Inr None
      | Inr (Some child) \<Rightarrow> lookup_path h child path)"

text \<open>
  The nodes of a chain that CreatePath makes under \<open>cur\<close> for \<open>path\<close>, at the addresses from
  \<open>base\<close> on: the node for the tag at index \<open>i\<close> is at \<open>base + i\<close>, its parent is the node
  before it (\<open>cur\<close> for the first), and its only child is the node after it.
\<close>

definition chain_Node :: "addr \<Rightarrow> addr \<Rightarrow> string list \<Rightarrow> addr \<Rightarrow> Node" where
  "chain_Node cur base path a =
     \<lparr>Tag = path ! (a - base),
      Parent = Some (if a = base then cur else a - 1),
      Children = (if Suc a < base + length path then [Some (Suc a)] else []),
      InnerText = [], Attributes = None\<rparr>"

subsection \<open>A small store for the examples\<close>

text \<open>
  Node 0 (\<open>a\<close>) has the children 1 (\<open>x\<close>) and 3 (\<open>b\<close>); node 1 has the child 2 (\<open>b\<close>).
  In pre-order the first \<open>b\<close> is node 2, the shallowest one is node 3.
\<close>

definition example_heap :: "addr \<Rightarrow> Node" where
  "example_heap = (\<lambda>_. zero_Node)
     (0 := zero_Node\<lparr>Tag := ''a'', Children := [Some 1, Some 3]\<rparr>,
      1 := zero_Node\<lparr>Tag := ''x'', Parent := Some 0, Children := [Some 2]\<rparr>,
      2 := zero_Node\<lparr>Tag := ''b'', Parent := Some 1\<rparr>,
      3 := zero_Node\<lparr>Tag := ''b'', Parent := Some 0\<rparr>)"

definition example_store :: store where
  "example_store = \<lparr>heap = example_heap, nxt = 4\<rparr>"

definition example_subtree :: subtree where
  "example_subtree = Sub 0 [Sub 1 [Sub 2 []], Sub 3 []]"

section \<open>Serializer and deserializer\<close>

text \<open>
  \<^verbatim>\<open>UnmarshalXML\<close> builds the tree below one node and \<^verbatim>\<open>MarshalXML\<close> reads it; what
  they do does not depend on how nodes are shared. Here a node is taken together with
  the nodes it owns, as a value: \<open>XNode\<close> is the struct with its children in the place of
  the pointers to them (\<open>None\<close> is a nil entry). The \<^verbatim>\<open>Parent\<close> field, which neither
  method reads, is left to the nesting: the parent of a parsed child
  (\<^verbatim>\<open>child := &Node{Parent: n}\<close>) is the node in whose children it sits.

  The decoder and the encoder belong to \<^verbatim>\<open>encoding/xml\<close>, not to the package. A decoder is
  what its \<^verbatim>\<open>Token\<close> method returns, call by call; the decoder that \<^verbatim>\<open>xml.Unmarshal\<close>
  creates checks the nesting of the elements, and \<open>Token_calls\<close> gives its results. An
  encoder is a state with the operations the package calls on it. The text in its buffer
  is kept as the sequence of the pieces written, tags, character data and white space,
  and \<open>rawTokens\<close> are the tokens that a decoder reads from that text.
\<close>

subsection \<open>Tokens, errors, nodes\<close>

text \<open>
  \<^verbatim>\<open>xml.Name\<close>, \<^verbatim>\<open>xml.Attr\<close>, \<^verbatim>\<open>xml.StartElement\<close> and the six kinds of \<^verbatim>\<open>xml.Token\<close>.
\<close>

datatype Name = Name (Space: string) (Local: string)

datatype Attr = Attr (AttrName: Name) (Value: string)

datatype StartElement = StartElement (StartName: Name) (StartAttr: "Attr list")

datatype Token =
    TStartElement StartElement
  | TEndElement Name
  | TCharData string
  | TComment string
  | TProcInst string string
  | TDirective string

text \<open>
  Errors: the end of the input, what else a decoder or an encoder reports, and
  \<^verbatim>\<open>ers.Trace(err)\<close>, which wraps an error on its way up.
\<close>

datatype error = EOF | SyntaxError string | MarshalError string | WriteError string | Trace error

datatype XNode = XNode (xTag: string) (xChildren: "XNode option list") (xInnerText: string)
  (xAttributes: "(string \<rightharpoonup> string) option")

definition zero_XNode :: XNode where
  "zero_XNode = XNode [] [] [] None"

subsection \<open>strings.TrimSpace\<close>

text \<open>
  The white space of \<^verbatim>\<open>unicode.IsSpace\<close>, as the UTF-8 bytes of each rune: tab, line
  feed, vertical tab, form feed, carriage return, space, U+0085, U+00A0, U+1680,
  U+2000 to U+200A, U+2028, U+2029, U+202F, U+205F and U+3000.
\<close>

definition space_runes :: "string list" where
  "space_runes =
     [[CHR 0x09], [CHR 0x0A], [CHR 0x0B], [CHR 0x0C], [CHR 0x0D], [CHR 0x20],
      [CHR 0xC2, CHR 0x85], [CHR 0xC2, CHR 0xA0],
      [CHR 0xE1, CHR 0x9A, CHR 0x80],
      [CHR 0xE2, CHR 0x80, CHR 0x80], [CHR 0xE2, CHR 0x80, CHR 0x81],
      [CHR 0xE2, CHR 0x80, CHR 0x82], [CHR 0xE2, CHR 0x80, CHR 0x83],
      [CHR 0xE2, CHR 0x80, CHR 0x84], [CHR 0xE2, CHR 0x80, CHR 0x85],
      [CHR 0xE2, CHR 0x80, CHR 0x86], [CHR 0xE2, CHR 0x80, CHR 0x87],
      [CHR 0xE2, CHR 0x80, CHR 0x88], [CHR 0xE2, CHR 0x80, CHR 0x89],
      [CHR 0xE2, CHR 0x80, CHR 0x8A],
      [CHR 0xE2, CHR 0x80, CHR 0xA8], [CHR 0xE2, CHR 0x80, CHR 0xA9],
      [CHR 0xE2, CHR 0x80, CHR 0xAF], [CHR 0xE2, CHR 0x81, CHR 0x9F],
      [CHR 0xE3, CHR 0x80, CHR 0x80]]"

text \<open>
  Dropping leading runes of a list for as long as one of them starts the string.
  \<open>TrimSpace\<close> drops white space at the front, then at the back.
\<close>

function strip_leading :: "string list \<Rightarrow> string \<Rightarrow> string" where
  "strip_leading ps s =
     (case find (\<lambda>p. p \<noteq> [] \<and> take (length p) s = p) ps of
        None \<Rightarrow> s
      | Some p \<Rightarrow> strip_leading ps (drop (length p) s))"
  by pat_completeness auto

termination
proof (relation "measure (\<lambda>(ps, s). length s)")
  show "wf (measure (\<lambda>(ps, s). length s))" by simp
next
  fix ps :: "string list" and s p :: string
  assume "find (\<lambda>p. p \<noteq> [] \<and> take (length p) s = p) ps = Some p"
  then have "p \<noteq> []" "take (length p) s = p"
    by (auto simp: find_Some_iff)
  then have "s \<noteq> []" by auto
  then show "((ps, drop (length p) s), (ps, s)) \<in> measure (\<lambda>(ps, s). length s)"
    using \<open>p \<noteq> []\<close> by simp
qed

declare strip_leading.simps [simp del]

definition TrimSpace :: "string \<Rightarrow> string" where
  "TrimSpace s = rev (strip_leading (map rev space_runes) (rev (strip_leading space_runes s)))"

subsection \<open>UnmarshalXML\<close>

text \<open>
  \<^verbatim>\<open>n.Tag = start.Name.Local; n.Attributes = make(map[string]string);
  for _, attr := range start.Attr { n.Attributes[attr.Name.Local] = attr.Value }\<close>:
  a later attribute with the same local name overwrites an earlier one; children and
  inner text of the receiver stay.
\<close>

definition attrs_of_start :: "Attr list \<Rightarrow> (string \<rightharpoonup> string)" where
  "attrs_of_start as = foldl (\<lambda>m a. m(Local (AttrName a) \<mapsto> Value a)) Map.empty as"

definition set_start :: "XNode \<Rightarrow> StartElement \<Rightarrow> XNode" where
  "set_start n start =
     XNode (Local (StartName start)) (xChildren n) (xInnerText n)
       (Some (attrs_of_start (StartAttr start)))"

text \<open>
  A decoder: the results of its successive \<^verbatim>\<open>Token\<close> calls, a token or an error; once
  they are used up it returns \<^verbatim>\<open>io.EOF\<close>. \<^verbatim>\<open>UnmarshalXML\<close> is defined on any such
  sequence; the sequences that the decoder of \<^verbatim>\<open>xml.Unmarshal\<close> produces are those of
  \<open>Token_calls\<close> below.
\<close>

type_synonym Decoder = "(error + Token) list"

text \<open>
  The \<^verbatim>\<open>for\<close> loop of \<^verbatim>\<open>UnmarshalXML\<close>, on the receiver as it is so far and the decoder;
  it returns the receiver and the decoder after the tokens it consumed. On a start
  element the child \<^verbatim>\<open>&Node{Parent: n}\<close> runs \<^verbatim>\<open>UnmarshalXML\<close> itself, that is the loop
  after \<open>set_start\<close>. An end element with another name, a comment, a processing
  instruction and a directive match no case that returns, and the loop goes on.
\<close>

function unmarshal_loop :: "XNode \<Rightarrow> Decoder \<Rightarrow> error + XNode \<times> Decoder" where
  "unmarshal_loop n [] = Inl (Trace EOF)"
| "unmarshal_loop n (Inl err # d) = Inl (Trace err)"
| "unmarshal_loop n (Inr (TStartElement elem) # d) =
     (case unmarshal_loop (set_start zero_XNode elem) d of
        Inl err \<Rightarrow> Inl (Trace err)
      | Inr (child, d') \<Rightarrow>
          unmarshal_loop (XNode (xTag n) (xChildren n @ [Some child]) (xInnerText n) (xAttributes n)) d')"
| "unmarshal_loop n (Inr (TCharData elem) # d) =
     unmarshal_loop (XNode (xTag n) (xChildren n) (TrimSpace elem) (xAttributes n)) d"
| "unmarshal_loop n (Inr (TEndElement name) # d) =
     (if Local name = xTag n then Inr (n, d) else unmarshal_loop n d)"
| "unmarshal_loop n (Inr (TComment c) # d) = unmarshal_loop n d"
| "unmarshal_loop n (Inr (TProcInst t i) # d) = unmarshal_loop n d"
| "unmarshal_loop n (Inr (TDirective c) # d) = unmarshal_loop n d"
  by pat_completeness auto

termination
proof -
  have shorter: "length d' < length d"
    if "unmarshal_loop_dom (n, d)" and "unmarshal_loop n d = Inr (n', d')" for n d n' d'
    using that
  proof (induction n d arbitrary: n' d' rule: unmarshal_loop.pinduct)
    case (3 n elem d)
    then show ?case
      by (fastforce simp: unmarshal_loop.psimps split: sum.splits prod.splits)
  qed (fastforce simp: unmarshal_loop.psimps split: if_splits)+
  show ?thesis
    by (relation "measure (\<lambda>(n, d). length d)") (auto dest: shorter)
qed

definition UnmarshalXML :: "XNode \<Rightarrow> Decoder \<Rightarrow> StartElement \<Rightarrow> error + XNode \<times> Decoder" where
  "UnmarshalXML n d start = unmarshal_loop (set_start n start) d"

text \<open>
  \<^verbatim>\<open>xml.Unmarshal\<close> on a fresh \<^verbatim>\<open>Node\<close>: the decoder is read up to the first start element,
  and the node's \<^verbatim>\<open>UnmarshalXML\<close> is called with it.
\<close>

fun xml_Unmarshal :: "Decoder \<Rightarrow> error + XNode" where
  "xml_Unmarshal [] = Inl EOF"
| "xml_Unmarshal (Inl err # d) = Inl err"
| "xml_Unmarshal (Inr (TStartElement start) # d) =
     (case UnmarshalXML zero_XNode d start of
        Inl err \<Rightarrow> Inl err
      | Inr (n, d') \<Rightarrow> Inr n)"
| "xml_Unmarshal (Inr t # d) = xml_Unmarshal d"

subsection \<open>The decoder of xml.Unmarshal\<close>

text \<open>
  \<^verbatim>\<open>xml.Unmarshal\<close> reads through a decoder in strict mode. Its \<^verbatim>\<open>Token\<close> method takes the
  next token from the text and keeps a stack of the open elements. A start element is
  pushed. An end element must carry the name of the innermost open element, which it
  pops; with another name, or with no element open, the call returns a syntax error. The
  end of the text while an element is open is the syntax error \<^verbatim>\<open>unexpected EOF\<close>.

  \<open>Token_calls stk raw\<close> are the results of the calls of \<^verbatim>\<open>Token\<close> when the elements \<open>stk\<close>
  are open, innermost first, and \<open>raw\<close> is what reading the text yields from there on:
  its tokens in order, with an error at the place where the text is malformed. The
  methods modelled here stop at the first error, so the results end with it.
  \<^verbatim>\<open>Token\<close> also replaces the name-space prefix of a name by the URL bound to it;
  \<^verbatim>\<open>UnmarshalXML\<close> reads local names only, and the prefix is left in place.
  \<^verbatim>\<open>xml.Unmarshal\<close> marks the stack below the element it hands to \<^verbatim>\<open>UnmarshalXML\<close>, so
  that a call past its end returns \<^verbatim>\<open>io.EOF\<close>; \<^verbatim>\<open>UnmarshalXML\<close> returns at that end
  element, and the mark is left out.
\<close>

fun Token_calls :: "Name list \<Rightarrow> (error + Token) list \<Rightarrow> Decoder" where
  "Token_calls stk [] = (if stk = [] then [] else [Inl (SyntaxError ''unexpected EOF'')])"
| "Token_calls stk (Inl err # raw) =
     [Inl (if err = EOF \<and> stk \<noteq> [] then SyntaxError ''unexpected EOF'' else err)]"
| "Token_calls stk (Inr (TStartElement st) # raw) =
     Inr (TStartElement st) # Token_calls (StartName st # stk) raw"
| "Token_calls stk (Inr (TEndElement name) # raw) =
     (case stk of
        [] \<Rightarrow> [Inl (SyntaxError (''unexpected end element </'' @ Local name @ ''>''))]
      | opened # rest \<Rightarrow>
          if Local opened \<noteq> Local name then
            [Inl (SyntaxError (''element <'' @ Local opened @ ''> closed by </'' @ Local name @ ''>''))]
          else if Space opened \<noteq> Space name then
            [Inl (SyntaxError (''element <'' @ Local opened @ ''> in space '' @ Space opened
                     @ '' closed by </'' @ Local name @ ''> in space '' @ Space name))]
          else Inr (TEndElement name) # Token_calls rest raw)"
| "Token_calls stk (Inr (TCharData s) # raw) = Inr (TCharData s) # Token_calls stk raw"
| "Token_calls stk (Inr (TComment c) # raw) = Inr (TComment c) # Token_calls stk raw"
| "Token_calls stk (Inr (TProcInst t i) # raw) = Inr (TProcInst t i) # Token_calls stk raw"
| "Token_calls stk (Inr (TDirective c) # raw) = Inr (TDirective c) # Token_calls stk raw"

subsection \<open>Element content\<close>

text \<open>
  The content of an element as a tree: text, child elements with their own content, and
  what the loop ignores. \<open>tokens_of\<close> spells it as tokens; \<open>well_nested\<close> says that every
  child element is closed by an end element with its own local name. \<open>absorb\<close> is what a
  node becomes by taking in such content, item by item; \<open>parse_element\<close> is the node for
  one element, and \<open>texts\<close> are the text items of one level.
\<close>

datatype misc = Comment string | ProcInst string string | Directive string

fun misc_token :: "misc \<Rightarrow> Token" where
  "misc_token (Comment c) = TComment c"
| "misc_token (ProcInst t i) = TProcInst t i"
| "misc_token (Directive c) = TDirective c"

datatype markup = Text string | Ignored misc | Element StartElement "markup list" Name

fun tokens_of :: "markup \<Rightarrow> Token list" where
  "tokens_of (Text s) = [TCharData s]"
| "tokens_of (Ignored m) = [misc_token m]"
| "tokens_of (Element st body en) =
     TStartElement st # concat (map tokens_of body) @ [TEndElement en]"

fun well_nested :: "markup \<Rightarrow> bool" where
  "well_nested (Text s) = True"
| "well_nested (Ignored m) = True"
| "well_nested (Element st body en) =
     (Local en = Local (StartName st) \<and> (\<forall>m \<in> set body. well_nested m))"

fun absorb :: "XNode \<Rightarrow> markup list \<Rightarrow> XNode" where
  "absorb n [] = n"
| "absorb n (Text s # ms) =
     absorb (XNode (xTag n) (xChildren n) (TrimSpace s) (xAttributes n)) ms"
| "absorb n (Ignored m # ms) = absorb n ms"
| "absorb n (Element st body en # ms) =
     absorb (XNode (xTag n)
               (xChildren n @ [Some (absorb (set_start zero_XNode st) body)])
               (xInnerText n) (xAttributes n)) ms"

fun parse_element :: "markup \<Rightarrow> XNode" where
  "parse_element (Element st body en) = absorb (set_start zero_XNode st) body"
| "parse_element m = zero_XNode"


text \<open>
  Start and end elements are the tags. \<open>properly_nested\<close> is the nesting that the decoder
  of \<^verbatim>\<open>xml.Unmarshal\<close> accepts: every element is closed by an end element with its own
  name, name space included.
\<close>

fun is_tag :: "Token \<Rightarrow> bool" where
  "is_tag (TStartElement st) = True"
| "is_tag (TEndElement name) = True"
| "is_tag t = False"

fun properly_nested :: "markup \<Rightarrow> bool" where
  "properly_nested (Text s) = True"
| "properly_nested (Ignored m) = True"
| "properly_nested (Element st body en) =
     (en = StartName st \<and> (\<forall>m \<in> set body. properly_nested m))"

subsection \<open>MarshalXML\<close>

text \<open>
  An encoder: the operations \<^verbatim>\<open>EncodeToken\<close>, \<^verbatim>\<open>Flush\<close> and \<^verbatim>\<open>Close\<close> on its state, each
  of which can fail, and the tokens written to its buffer so far.
\<close>

record 'e Encoder =
  EncodeToken :: "'e \<Rightarrow> Token \<Rightarrow> error + 'e"
  Flush :: "'e \<Rightarrow> error + 'e"
  Close :: "'e \<Rightarrow> error + 'e"
  Buffer :: "'e \<Rightarrow> Token list"

text \<open>
  \<^verbatim>\<open>e.Encode(child)\<close> calls \<^verbatim>\<open>MarshalXML\<close> with a start element named after the type and
  without attributes. \<open>attrs_of\<close> reads a nil map as the empty one, as \<^verbatim>\<open>range\<close> does.
\<close>

definition default_start :: StartElement where
  "default_start = StartElement (Name [] ''Node'') []"

definition attrs_of :: "XNode \<Rightarrow> (string \<rightharpoonup> string)" where
  "attrs_of n = (case xAttributes n of None \<Rightarrow> Map.empty | Some m \<Rightarrow> m)"

text \<open>
  \<^verbatim>\<open>start.Name.Local = n.Tag; for key, value := range n.Attributes { start.Attr =
  append(start.Attr, xml.Attr{Name: xml.Name{Local: key}, Value: value}) }\<close>, where
  \<open>kvs\<close> are the entries in the order the range yields them.
\<close>

definition start_of :: "XNode \<Rightarrow> StartElement \<Rightarrow> (string \<times> string) list \<Rightarrow> StartElement" where
  "start_of n start kvs =
     StartElement (Name (Space (StartName start)) (xTag n))
       (StartAttr start @ map (\<lambda>(key, value). Attr (Name [] key) value) kvs)"

text \<open>
  Go leaves the order of a range over a map open, from one iteration to the next. The
  order is therefore an input: \<open>ord pos\<close> is the enumeration that the range takes at the
  node at position \<open>pos\<close>, the list of child indices that lead to it from the root.
\<close>

type_synonym ranging = "nat list \<Rightarrow> (string \<times> string) list"

lemma size_children_less: "size_list (size_option size) (xChildren n) < size n"
  by (cases n) simp

text \<open>
  \<^verbatim>\<open>MarshalXML\<close>, \<^verbatim>\<open>Encoder.Encode\<close> on a child pointer (nothing is written for a nil
  pointer; the writer is flushed either way) and the loop over the children. The first
  branch, for a node without children and text, returns the result of the second
  \<^verbatim>\<open>EncodeToken\<close> as it is and does not flush.
\<close>

function MarshalXML :: "'e Encoder \<Rightarrow> ranging \<Rightarrow> nat list \<Rightarrow> XNode \<Rightarrow> 'e \<Rightarrow> StartElement \<Rightarrow> error + 'e"
and Encode :: "'e Encoder \<Rightarrow> ranging \<Rightarrow> nat list \<Rightarrow> 'e \<Rightarrow> XNode option \<Rightarrow> error + 'e"
and encode_children :: "'e Encoder \<Rightarrow> ranging \<Rightarrow> nat list \<Rightarrow> nat \<Rightarrow> XNode option list \<Rightarrow> 'e \<Rightarrow> error + 'e"
where
  "MarshalXML enc ord pos n e start0 =
     (let start = start_of n start0 (ord pos) in
      if xChildren n = [] \<and> xInnerText n = [] then
        (case EncodeToken enc e (TStartElement start) of
           Inl err \<Rightarrow> Inl (Trace err)
         | Inr e1 \<Rightarrow> EncodeToken enc e1 (TEndElement (StartName start)))
      else
        (case EncodeToken enc e (TStartElement start) of
           Inl err \<Rightarrow> Inl (Trace err)
         | Inr e1 \<Rightarrow>
        (case (if xInnerText n \<noteq> [] then EncodeToken enc e1 (TCharData (xInnerText n))
               else Inr e1) of
           Inl err \<Rightarrow> Inl (Trace err)
         | Inr e2 \<Rightarrow>
        (case encode_children enc ord pos 0 (xChildren n) e2 of
           Inl err \<Rightarrow> Inl err
         | Inr e3 \<Rightarrow>
        (case EncodeToken enc e3 (TEndElement (StartName start)) of
           Inl err \<Rightarrow> Inl (Trace err)
         | Inr e4 \<Rightarrow> Flush enc e4)))))"
| "Encode enc ord pos e None = Flush enc e"
| "Encode enc ord pos e (Some v) =
     (case MarshalXML enc ord pos v e default_start of
        Inl err \<Rightarrow> Inl err
      | Inr e1 \<Rightarrow> Flush enc e1)"
| "encode_children enc ord pos i [] e = Inr e"
| "encode_children enc ord pos i (child # cs) e =
     (case Encode enc ord (pos @ [i]) e child of
        Inl err \<Rightarrow> Inl (Trace err)
      | Inr e' \<Rightarrow> encode_children enc ord pos (Suc i) cs e')"
  by pat_completeness auto

termination
  by (relation "measure (case_sum (\<lambda>(enc, ord, pos, n, e, st). size n)
                 (case_sum (\<lambda>(enc, ord, pos, e, v). size_option size v)
                           (\<lambda>(enc, ord, pos, i, cs, e). size_list (size_option size) cs)))")
     (auto simp: size_children_less)

declare MarshalXML.simps [simp del]

text \<open>
  \<^verbatim>\<open>xml.Marshal\<close> and \<^verbatim>\<open>xml.MarshalIndent\<close>: encode, close, return the buffer. They differ
  in the encoder they start from (\<open>e0\<close>), which for \<^verbatim>\<open>MarshalIndent\<close> is set to indent.
\<close>

definition xml_Marshal :: "'e Encoder \<Rightarrow> ranging \<Rightarrow> 'e \<Rightarrow> XNode option \<Rightarrow> error + Token list" where
  "xml_Marshal enc ord e0 v =
     (case Encode enc ord [] e0 v of
        Inl err \<Rightarrow> Inl err
      | Inr e1 \<Rightarrow>
          (case Close enc e1 of
             Inl err \<Rightarrow> Inl err
           | Inr e2 \<Rightarrow> Inr (Buffer enc e2)))"

text \<open>
  \<^verbatim>\<open>output, err := xml.MarshalIndent(n, "", "  "); if err != nil { return nil };
  return output\<close> and \<^verbatim>\<open>string(n.Bytes())\<close>. \<open>None\<close> is the nil slice, whose string is
  empty.
\<close>

definition Bytes :: "'e Encoder \<Rightarrow> ranging \<Rightarrow> 'e \<Rightarrow> XNode option \<Rightarrow> Token list option" where
  "Bytes enc ord e0 n =
     (case xml_Marshal enc ord e0 n of
        Inl err \<Rightarrow> None
      | Inr output \<Rightarrow> Some output)"

definition String :: "'e Encoder \<Rightarrow> ranging \<Rightarrow> 'e \<Rightarrow> XNode option \<Rightarrow> Token list" where
  "String enc ord e0 n = (case Bytes enc ord e0 n of None \<Rightarrow> [] | Some b \<Rightarrow> b)"

text \<open>
  The calls that \<^verbatim>\<open>MarshalXML\<close> makes on the encoder, in order, if none fails, and their
  execution up to the first failure. \<open>untrace\<close> takes the wrappers of \<^verbatim>\<open>ers.Trace\<close> off.
\<close>

datatype call = EncodeTokenCall Token | FlushCall

fun perform :: "'e Encoder \<Rightarrow> 'e \<Rightarrow> call \<Rightarrow> error + 'e" where
  "perform enc e (EncodeTokenCall t) = EncodeToken enc e t"
| "perform enc e FlushCall = Flush enc e"

fun run :: "'e Encoder \<Rightarrow> 'e \<Rightarrow> call list \<Rightarrow> error + 'e" where
  "run enc e [] = Inr e"
| "run enc e (c # cs) =
     (case perform enc e c of Inl err \<Rightarrow> Inl err | Inr e' \<Rightarrow> run enc e' cs)"

function calls_of :: "ranging \<Rightarrow> nat list \<Rightarrow> XNode \<Rightarrow> StartElement \<Rightarrow> call list"
and calls_of_child :: "ranging \<Rightarrow> nat list \<Rightarrow> XNode option \<Rightarrow> call list"
and calls_of_children :: "ranging \<Rightarrow> nat list \<Rightarrow> nat \<Rightarrow> XNode option list \<Rightarrow> call list"
where
  "calls_of ord pos n start0 =
     (let start = start_of n start0 (ord pos) in
      [EncodeTokenCall (TStartElement start)]
      @ (if xInnerText n \<noteq> [] then [EncodeTokenCall (TCharData (xInnerText n))] else [])
      @ calls_of_children ord pos 0 (xChildren n)
      @ [EncodeTokenCall (TEndElement (StartName start))]
      @ (if xChildren n = [] \<and> xInnerText n = [] then [] else [FlushCall]))"
| "calls_of_child ord pos None = [FlushCall]"
| "calls_of_child ord pos (Some v) = calls_of ord pos v default_start @ [FlushCall]"
| "calls_of_children ord pos i [] = []"
| "calls_of_children ord pos i (child # cs) =
     calls_of_child ord (pos @ [i]) child @ calls_of_children ord pos (Suc i) cs"
  by pat_completeness auto

termination
  by (relation "measure (case_sum (\<lambda>(ord, pos, n, st). size n)
                 (case_sum (\<lambda>(ord, pos, v). size_option size v)
                           (\<lambda>(ord, pos, i, cs). size_list (size_option size) cs)))")
     (auto simp: size_children_less)

declare calls_of.simps [simp del]

fun untrace :: "error \<Rightarrow> error" where
  "untrace (Trace err) = untrace err"
| "untrace err = err"

subsection \<open>The printer of encoding/xml\<close>

text \<open>
  The encoder of the standard library, as far as the tokens of \<^verbatim>\<open>MarshalXML\<close> meet it: a
  start element needs a name, its attributes without a name are skipped, and an end
  element must name the innermost open element. The writer is a buffer in memory, so
  \<^verbatim>\<open>Flush\<close> does not fail; \<^verbatim>\<open>Close\<close> fails on an open element. It writes no white
  space of its own: it is the encoder of \<^verbatim>\<open>xml.Marshal\<close>. The buffer holds the pieces
  written, each as the token it was written for: the printer writes a local name as it
  is, without checking it, and escapes text. How a decoder reads the buffer is
  \<open>rawTokens\<close> below.
\<close>

record printer =
  written :: "Token list"
  open_tags :: "Name list"

definition new_printer :: printer where
  "new_printer = \<lparr>written = [], open_tags = []\<rparr>"

fun go_EncodeToken :: "printer \<Rightarrow> Token \<Rightarrow> error + printer" where
  "go_EncodeToken p (TStartElement st) =
     (if Local (StartName st) = [] then Inl (MarshalError ''xml: start tag with no name'')
      else Inr \<lparr>written = written p @
                   [TStartElement (StartElement (StartName st)
                      (filter (\<lambda>a. Local (AttrName a) \<noteq> []) (StartAttr st)))],
                open_tags = StartName st # open_tags p\<rparr>)"
| "go_EncodeToken p (TEndElement name) =
     (if Local name = [] then Inl (MarshalError ''xml: end tag with no name'')
      else case open_tags p of
             [] \<Rightarrow> Inl (MarshalError ''xml: end tag without start tag'')
           | opened # rest \<Rightarrow>
               if opened \<noteq> name then Inl (MarshalError ''xml: end tag does not match start tag'')
               else Inr \<lparr>written = written p @ [TEndElement name], open_tags = rest\<rparr>)"
| "go_EncodeToken p t = Inr (p\<lparr>written := written p @ [t]\<rparr>)"

definition go_Encoder :: "printer Encoder" where
  "go_Encoder =
     \<lparr>EncodeToken = go_EncodeToken,
      Flush = Inr,
      Close = (\<lambda>p. if open_tags p \<noteq> [] then Inl (MarshalError ''xml: unclosed tag'') else Inr p),
      Buffer = written\<rparr>"

subsection \<open>The indenting printer\<close>

text \<open>
  The same encoder after \<^verbatim>\<open>Indent("", "  ")\<close>, as \<^verbatim>\<open>xml.MarshalIndent(n, "", "  ")\<close> in
  \<^verbatim>\<open>Bytes\<close> sets it up. The printer has three more fields: the depth of the open
  elements, whether the last tag written was a start tag (\<^verbatim>\<open>indentedIn\<close>), and whether
  anything was written yet (\<^verbatim>\<open>putNewline\<close>).

  \<^verbatim>\<open>writeIndent\<close> runs before a start tag (\<^verbatim>\<open>depthDelta\<close> 1) and before an end tag
  (\<^verbatim>\<open>depthDelta\<close> -1). Before an end tag it lowers the depth, and writes nothing when the
  element has just been opened. Otherwise it writes a line feed, except at the very
  beginning, and two spaces for each level of depth; before a start tag it then raises
  the depth. The white space goes to the buffer as one piece of character data, and
  nothing is put there when it is empty. Character data is written without indentation.
\<close>

record indenter = printer +
  depth :: int
  indentedIn :: bool
  putNewline :: bool






text \<open>
  The white space that \<^verbatim>\<open>writeIndent\<close> writes before a start tag at depth \<open>k\<close>, as
  pieces of the buffer, and the line break before a tag at depth \<open>k\<close>.
\<close>

definition lead :: "indenter \<Rightarrow> nat \<Rightarrow> Token list" where
  "lead p k =
     (if \<not> putNewline p \<and> k = 0 then []
      else [TCharData ((if putNewline p then [CHR 0x0A] else []) @ concat (replicate k ''  ''))])"

definition line :: "nat \<Rightarrow> string" where
  "line k = CHR 0x0A # concat (replicate k ''  '')"

subsection \<open>The text read back\<close>








text \<open>
  \<^verbatim>\<open>Decoder.nsname\<close>: a name with more than one colon is refused; a name with one colon
  that has something on both sides is split into name space and local name; any other
  name is a local name.
\<close>

definition nsname :: "string \<Rightarrow> Name option" where
  "nsname s =
     (if count_list s CHR '':'' > 1 then None
      else let space = takeWhile (\<lambda>c. c \<noteq> CHR '':'') s;
               local = drop (Suc (length space)) s
           in if CHR '':'' \<notin> set s \<or> space = [] \<or> local = [] then Some (Name [] s)
              else Some (Name space local))"

text \<open>
  What the decoder reads for one piece of the buffer. The printer writes the local name
  of an element and of an attribute (\<^verbatim>\<open>MarshalXML\<close> leaves the name space of its
  attributes empty), and the name space of an element, when there is one, as an
  \<^verbatim>\<open>xmlns\<close> attribute before the others; the decoder applies \<^verbatim>\<open>nsname\<close> to each name it
  reads and reports a syntax error where that fails.
\<close>

fun read_attrs :: "Attr list \<Rightarrow> Attr list option" where
  "read_attrs [] = Some []"
| "read_attrs (a # as) =
     (case nsname (Local (AttrName a)) of
        None \<Rightarrow> None
      | Some name \<Rightarrow> map_option ((#) (Attr name (Value a))) (read_attrs as))"

fun read_token :: "Token \<Rightarrow> error + Token" where
  "read_token (TStartElement st) =
     (case nsname (Local (StartName st)) of
        None \<Rightarrow> Inl (SyntaxError ''expected element name after <'')
      | Some name \<Rightarrow>
          (case read_attrs ((if Space (StartName st) = [] then []
                             else [Attr (Name [] ''xmlns'') (Space (StartName st))]) @ StartAttr st) of
             None \<Rightarrow> Inl (SyntaxError ''expected attribute name in element'')
           | Some as \<Rightarrow> Inr (TStartElement (StartElement name as))))"
| "read_token (TEndElement name) =
     (case nsname (Local name) of
        None \<Rightarrow> Inl (SyntaxError ''expected element name after </'')
      | Some name' \<Rightarrow> Inr (TEndElement name'))"
| "read_token t = Inr t"

text \<open>
  Character data written piece after piece is one stretch of text for the decoder, which
  returns it as one token; nothing written is no token. \<open>rawTokens\<close> are the tokens read
  from a buffer, up to the first error, and \<open>Unmarshal_text\<close> is \<^verbatim>\<open>xml.Unmarshal\<close> of the
  text in a buffer into a fresh node.
\<close>

fun merge_text :: "Token list \<Rightarrow> Token list" where
  "merge_text (TCharData a # TCharData b # ts) = merge_text (TCharData (a @ b) # ts)"
| "merge_text (TCharData a # ts) = (if a = [] then merge_text ts else TCharData a # merge_text ts)"
| "merge_text (t # ts) = t # merge_text ts"
| "merge_text [] = []"






subsection \<open>Trees that can be written and read back\<close>

text \<open>
  \<open>range_order m kvs\<close>: the list \<open>kvs\<close> has every entry of the map \<open>m\<close> once.
\<close>

definition range_order :: "(string \<rightharpoonup> string) \<Rightarrow> (string \<times> string) list \<Rightarrow> bool" where
  "range_order m kvs = (distinct (map fst kvs) \<and> map_of kvs = m)"

text \<open>
  The element that \<^verbatim>\<open>MarshalXML\<close> writes for a node: its text first, if any, then its
  children.
\<close>

function markup_of :: "ranging \<Rightarrow> nat list \<Rightarrow> XNode \<Rightarrow> StartElement \<Rightarrow> markup"
and children_markup :: "ranging \<Rightarrow> nat list \<Rightarrow> nat \<Rightarrow> XNode option list \<Rightarrow> markup list"
where
  "markup_of ord pos n start0 =
     Element (start_of n start0 (ord pos))
       ((if xInnerText n \<noteq> [] then [Text (xInnerText n)] else [])
        @ children_markup ord pos 0 (xChildren n))
       (StartName (start_of n start0 (ord pos)))"
| "children_markup ord pos i [] = []"
| "children_markup ord pos i (None # cs) = children_markup ord pos (Suc i) cs"
| "children_markup ord pos i (Some c # cs) =
     markup_of ord (pos @ [i]) c default_start # children_markup ord pos (Suc i) cs"
  by pat_completeness auto

termination
  by (relation "measure (case_sum (\<lambda>(ord, pos, n, st). size n)
                           (\<lambda>(ord, pos, i, cs). size_list (size_option size) cs))")
     (auto simp: size_children_less)

text \<open>
  \<open>fits ord pos n\<close>: in the tree \<open>n\<close> at position \<open>pos\<close>, every tag is non-empty, no attribute
  key is empty, no child is nil, and \<open>ord\<close> gives for every node an enumeration of its
  attributes.
\<close>

function fits :: "ranging \<Rightarrow> nat list \<Rightarrow> XNode \<Rightarrow> bool"
and fits_children :: "ranging \<Rightarrow> nat list \<Rightarrow> nat \<Rightarrow> XNode option list \<Rightarrow> bool"
where
  "fits ord pos n =
     (xTag n \<noteq> [] \<and> [] \<notin> dom (attrs_of n) \<and> range_order (attrs_of n) (ord pos)
      \<and> fits_children ord pos 0 (xChildren n))"
| "fits_children ord pos i [] = True"
| "fits_children ord pos i (None # cs) = False"
| "fits_children ord pos i (Some c # cs) =
     (fits ord (pos @ [i]) c \<and> fits_children ord pos (Suc i) cs)"
  by pat_completeness auto

termination
  by (relation "measure (case_sum (\<lambda>(ord, pos, n). size n)
                           (\<lambda>(ord, pos, i, cs). size_list (size_option size) cs))")
     (auto simp: size_children_less)






subsection \<open>Trees for the examples\<close>

text \<open>
  \<open>example_doc\<close> is \<^verbatim>\<open><a x="1"><b>hello</b><b> world </b></a>\<close>; \<open>library\<close> is the root of
  the package's marshalling test, without its children; \<open>untagged\<close> is \<^verbatim>\<open>&Node{}\<close>;
  \<open>mixed\<close> is \<^verbatim>\<open><a>t<b></b></a>\<close>, a node with inner text and a child; \<open>prefixed\<close> is
  the node with the tag \<^verbatim>\<open>soap:Envelope\<close>.
\<close>

definition example_doc :: XNode where
  "example_doc =
     XNode ''a''
       [Some (XNode ''b'' [] ''hello'' None), Some (XNode ''b'' [] '' world '' None)]
       [] (Some [''x'' \<mapsto> ''1''])"


definition example_order :: ranging where
  "example_order pos = (if pos = [] then [(''x'', ''1'')] else [])"

definition library :: XNode where
  "library = XNode ''library'' [] []
     (Some [''name'' \<mapsto> ''City Library'', ''location'' \<mapsto> ''Downtown'', ''rating'' \<mapsto> ''4.3''])"

definition order_one :: ranging where
  "order_one pos = [(''name'', ''City Library''), (''location'', ''Downtown''), (''rating'', ''4.3'')]"

definition order_two :: ranging where
  "order_two pos = [(''location'', ''Downtown''), (''name'', ''City Library''), (''rating'', ''4.3'')]"

definition untagged :: XNode where
  "untagged = XNode [] [] [] None"




section \<open>Properties\<close>

text \<open>
  C9. FindChild on a nil receiver returns nil: the call returns (it does not fail or
  diverge), and what it returns is the nil pointer, whatever the store and the tag.
\<close>

theorem FindChild_nil_receiver: "FindChild h None tag = Some None"
  by (subst FindChild.simps) simp


subsection \<open>FindChild\<close>

lemma find_append_first:
  "find P (xs @ ys) = (case find P xs of None \<Rightarrow> find P ys | Some x \<Rightarrow> Some x)"
  by (induction xs) auto

lemma first_found_preorder:
  assumes "list_all2 (unfolds h) cs ts"
    and "\<And>c t. t \<in> set ts \<Longrightarrow> unfolds h c t \<Longrightarrow> FindChild h c tag = Some (find P (preorder t))"
  shows "first_found (\<lambda>c. FindChild h c tag) cs = Some (find P (concat (map preorder ts)))"
  using assms
proof (induction cs ts rule: list_all2_induct)
  case Nil
  then show ?case by simp
next
  case (Cons c cs t ts)
  have here: "FindChild h c tag = Some (find P (preorder t))"
    using Cons.prems [of t c] Cons.hyps(1) by simp
  have rest: "first_found (\<lambda>c. FindChild h c tag) cs = Some (find P (concat (map preorder ts)))"
    using Cons.IH Cons.prems by simp
  show ?case
    by (cases "find P (preorder t)") (simp_all add: here rest find_append_first)
qed

lemma FindChild_preorder:
  "unfolds h n t \<Longrightarrow> FindChild h n tag = Some (find (\<lambda>a. Tag (h a) = tag) (preorder t))"
proof (induction t arbitrary: n)
  case Absent
  then show ?case by (subst FindChild.simps) simp
next
  case (Sub a ts)
  then show ?case
    by (subst FindChild.simps) (auto intro!: first_found_preorder)
qed

text \<open>
  C5. FindChild is a depth-first pre-order search that checks the receiver first: started
  at a pointer whose children unfold to a (finite) subtree, it returns, and what it
  returns is the first node of the pre-order sequence whose tag is the argument; it is
  nil when no node of the subtree has the tag. The search only reads the store, so a
  second call on the same store gives the same node.
\<close>

theorem FindChild_first_preorder:
  assumes "unfolds h n t"
  shows "FindChild h n tag = Some (find (\<lambda>a. Tag (h a) = tag) (preorder t))
       \<and> ((\<forall>a \<in> set (preorder t). Tag (h a) \<noteq> tag) \<longrightarrow> FindChild h n tag = Some None)"
proof -
  have found: "FindChild h n tag = Some (find (\<lambda>a. Tag (h a) = tag) (preorder t))"
    using assms by (rule FindChild_preorder)
  moreover have "find (\<lambda>a. Tag (h a) = tag) (preorder t) = None"
    if "\<forall>a \<in> set (preorder t). Tag (h a) \<noteq> tag"
    using that by (simp add: find_None_iff)
  ultimately show ?thesis by simp
qed

theorem FindChild_first_preorder_witness:
  "unfolds example_heap (Some 0) example_subtree
   \<and> preorder example_subtree = [0, 1, 2, 3]
   \<and> FindChild example_heap (Some 0) ''b'' = Some (Some 2)
   \<and> FindChild example_heap (Some 0) ''zz'' = Some None"
  using FindChild_first_preorder [of example_heap "Some 0" example_subtree "''b''"]
    FindChild_first_preorder [of example_heap "Some 0" example_subtree "''zz''"]
  by (simp add: example_heap_def example_subtree_def zero_Node_def)

subsection \<open>Effect of the mutators on the store\<close>

lemma has_tag_simps [simp]:
  "has_tag h tag None = False"
  "has_tag h tag (Some c) = (Tag (h c) = tag)"
  by (simp_all add: has_tag_def)

lemma remove_loop_filter:
  "None \<notin> set cs \<Longrightarrow>
   remove_loop h tag acc cs = Inr (acc @ filter (\<lambda>p. \<not> has_tag h tag p) cs)"
  by (induction h tag acc cs rule: remove_loop.induct) auto

lemma remove_loop_nil:
  "None \<in> set cs \<Longrightarrow> remove_loop h tag acc cs = Inl NilDereference"
  by (induction h tag acc cs rule: remove_loop.induct) auto

lemma remove_loop_Inr_iff:
  "remove_loop h tag acc cs = Inr r \<longleftrightarrow>
   None \<notin> set cs \<and> r = acc @ filter (\<lambda>p. \<not> has_tag h tag p) cs"
  by (cases "None \<in> set cs") (auto simp: remove_loop_filter remove_loop_nil)

lemma RemoveChildrenWithTag_Inr_iff:
  "RemoveChildrenWithTag s n tag = Inr s' \<longleftrightarrow>
   None \<notin> set (Children (heap s n)) \<and>
   s' = s\<lparr>heap := (heap s)(n := (heap s n)
          \<lparr>Children := filter (\<lambda>p. \<not> has_tag (heap s) tag p) (Children (heap s n))\<rparr>)\<rparr>"
  by (cases "None \<in> set (Children (heap s n))")
     (auto simp: RemoveChildrenWithTag_def remove_loop_filter remove_loop_nil)

lemma CreatePath_Cons:
  "CreatePath s cur (tag # path) = CreatePath (grow s cur tag) (nxt s) path"
  by (simp add: grow_def alloc_def AppendChild_def Let_def)

lemma grow_simps [simp]:
  "nxt (grow s cur tag) = Suc (nxt s)"
  "cur < nxt s \<Longrightarrow> heap (grow s cur tag) cur = (heap s cur)\<lparr>Children := Children (heap s cur) @ [Some (nxt s)]\<rparr>"
  "cur < nxt s \<Longrightarrow> heap (grow s cur tag) (nxt s) = zero_Node\<lparr>Tag := tag, Parent := Some cur\<rparr>"
  "a \<noteq> cur \<Longrightarrow> a \<noteq> nxt s \<Longrightarrow> heap (grow s cur tag) a = heap s a"
  by (auto simp: grow_def alloc_def AppendChild_def Let_def)

lemma CreatePath_nxt: "cur < nxt s \<Longrightarrow> nxt (fst (CreatePath s cur path)) = nxt s + length path"
  by (induction path arbitrary: s cur) (simp_all add: CreatePath_Cons del: CreatePath.simps(2))

lemma CreatePath_frame:
  "cur < nxt s \<Longrightarrow> a < nxt s \<Longrightarrow> a \<noteq> cur \<Longrightarrow> heap (fst (CreatePath s cur path)) a = heap s a"
  by (induction path arbitrary: s cur) (simp_all add: CreatePath_Cons del: CreatePath.simps(2))

lemma CreatePath_beyond:
  "cur < nxt s \<Longrightarrow> nxt s + length path \<le> a \<Longrightarrow> heap (fst (CreatePath s cur path)) a = heap s a"
  by (induction path arbitrary: s cur) (simp_all add: CreatePath_Cons del: CreatePath.simps(2))

lemma CreatePath_cur:
  "cur < nxt s \<Longrightarrow>
   heap (fst (CreatePath s cur path)) cur =
     (if path = [] then heap s cur
      else (heap s cur)\<lparr>Children := Children (heap s cur) @ [Some (nxt s)]\<rparr>)"
  by (cases path) (simp_all add: CreatePath_Cons CreatePath_frame del: CreatePath.simps(2))

lemma CreatePath_result:
  "cur < nxt s \<Longrightarrow> snd (CreatePath s cur path) = (if path = [] then cur else nxt s + length path - 1)"
  by (induction path arbitrary: s cur) (simp_all add: CreatePath_Cons del: CreatePath.simps(2))

lemma grow_Tag: "a < nxt s \<Longrightarrow> cur < nxt s \<Longrightarrow> Tag (heap (grow s cur tag) a) = Tag (heap s a)"
  by (cases "a = cur") simp_all

lemma grow_Parent: "a < nxt s \<Longrightarrow> cur < nxt s \<Longrightarrow> Parent (heap (grow s cur tag) a) = Parent (heap s a)"
  by (cases "a = cur") simp_all

lemma CreatePath_Tag:
  "cur < nxt s \<Longrightarrow> a < nxt s \<Longrightarrow> Tag (heap (fst (CreatePath s cur path)) a) = Tag (heap s a)"
  by (induction path arbitrary: s cur) (simp_all add: CreatePath_Cons grow_Tag del: CreatePath.simps(2))

lemma CreatePath_Parent:
  "cur < nxt s \<Longrightarrow> a < nxt s \<Longrightarrow> Parent (heap (fst (CreatePath s cur path)) a) = Parent (heap s a)"
  by (induction path arbitrary: s cur) (simp_all add: CreatePath_Cons grow_Parent del: CreatePath.simps(2))

lemma first_with_tag_append:
  "first_with_tag h tag (xs @ ys) =
     (case first_with_tag h tag xs of
        Inl p \<Rightarrow> Inl p
      | Inr None \<Rightarrow> first_with_tag h tag ys
      | Inr (Some c) \<Rightarrow> Inr (Some c))"
  by (induction h tag xs rule: first_with_tag.induct) auto

lemma first_with_tag_cong:
  "(\<And>c. Some c \<in> set cs \<Longrightarrow> Tag (h' c) = Tag (h c)) \<Longrightarrow>
   first_with_tag h' tag cs = first_with_tag h tag cs"
  by (induction h tag cs rule: first_with_tag.induct) auto

lemma first_with_tag_Some:
  "first_with_tag h tag cs = Inr (Some c) \<Longrightarrow> Some c \<in> set cs \<and> Tag (h c) = tag"
  by (induction h tag cs rule: first_with_tag.induct) (auto split: if_splits)

lemma first_with_tag_no_nil:
  "None \<notin> set cs \<Longrightarrow> \<exists>r. first_with_tag h tag cs = Inr r"
  by (induction h tag cs rule: first_with_tag.induct) auto

lemma lookup_EnsurePath:
  "lookup_path (heap s) n path = Inr (Some r) \<Longrightarrow> EnsurePath s n path = Inr (s, r)"
  by (induction path arbitrary: n) (auto split: sum.splits option.splits)

lemma CreatePath_lookup:
  assumes "cur < nxt s"
    and "\<And>c. Some c \<in> set (Children (heap s cur)) \<Longrightarrow> c < nxt s"
    and "path \<noteq> [] \<Longrightarrow> first_with_tag (heap s) (hd path) (Children (heap s cur)) = Inr None"
  shows "lookup_path (heap (fst (CreatePath s cur path))) cur path
           = Inr (Some (snd (CreatePath s cur path)))"
  using assms
proof (induction path arbitrary: s cur)
  case Nil
  then show ?case by simp
next
  case (Cons t ts)
  define s2 where "s2 = grow s cur t"
  define s' where "s' = fst (CreatePath s2 (nxt s) ts)"
  have fresh: "nxt s < nxt s2" "cur < nxt s2" "cur \<noteq> nxt s"
    using Cons.prems(1) by (simp_all add: s2_def)
  have cur': "heap s' cur = (heap s cur)\<lparr>Children := Children (heap s cur) @ [Some (nxt s)]\<rparr>"
    using fresh Cons.prems(1) by (simp add: s'_def CreatePath_frame) (simp add: s2_def)
  have old_tags: "Tag (heap s' c) = Tag (heap s c)" if "Some c \<in> set (Children (heap s cur))" for c
  proof -
    have "c < nxt s" using that Cons.prems(2) by blast
    then show ?thesis
      using fresh Cons.prems(1) by (simp add: s'_def CreatePath_Tag) (simp add: s2_def grow_Tag)
  qed
  have miss: "first_with_tag (heap s') t (Children (heap s cur)) = Inr None"
    using first_with_tag_cong [of "Children (heap s cur)" "heap s'" "heap s" t] old_tags Cons.prems(3)
    by simp
  have new_tag: "Tag (heap s' (nxt s)) = t"
    using fresh Cons.prems(1) by (simp add: s'_def CreatePath_Tag) (simp add: s2_def)
  have step: "first_with_tag (heap s') t (Children (heap s' cur)) = Inr (Some (nxt s))"
    by (simp add: cur' first_with_tag_append miss new_tag)
  have kids: "Children (heap s2 (nxt s)) = []"
    using Cons.prems(1) by (simp add: s2_def zero_Node_def)
  have "lookup_path (heap s') (nxt s) ts = Inr (Some (snd (CreatePath s2 (nxt s) ts)))"
    unfolding s'_def using fresh kids by (intro Cons.IH) simp_all
  then show ?case
    by (simp add: CreatePath_Cons step del: CreatePath.simps(2)) (simp add: s2_def s'_def step [unfolded s'_def s2_def])
qed


lemma closedD: "closed s \<Longrightarrow> a < nxt s \<Longrightarrow> Some c \<in> set (Children (heap s a)) \<Longrightarrow> c < nxt s"
  by (auto simp: closed_def)

lemma CreatePath_Children_grows:
  assumes "cur < nxt s" "a < nxt s"
  shows "\<exists>ext. Children (heap (fst (CreatePath s cur path)) a) = Children (heap s a) @ ext"
proof (cases "a = cur")
  case True
  then show ?thesis using assms by (simp add: CreatePath_cur)
next
  case False
  then show ?thesis using assms by (simp add: CreatePath_frame)
qed

lemma EnsurePath_grows:
  assumes "EnsurePath s n path = Inr (s1, r)" "closed s" "n < nxt s" "a < nxt s"
  shows "Tag (heap s1 a) = Tag (heap s a) \<and>
         (\<exists>ext. Children (heap s1 a) = Children (heap s a) @ ext)"
  using assms
proof (induction path arbitrary: n)
  case Nil
  then show ?case by simp
next
  case (Cons t ts)
  show ?case
  proof (cases "first_with_tag (heap s) t (Children (heap s n))")
    case (Inl p)
    then show ?thesis using Cons.prems by simp
  next
    case (Inr found)
    show ?thesis
    proof (cases found)
      case None
      then have "s1 = fst (CreatePath s n (t # ts))"
        using Inr Cons.prems(1) by (simp del: CreatePath.simps)
      then show ?thesis
        using Cons.prems(3,4) CreatePath_Tag CreatePath_Children_grows by blast
    next
      case (Some c)
      then have "Some c \<in> set (Children (heap s n))"
        using first_with_tag_Some [of "heap s" t "Children (heap s n)" c] Inr by simp
      then have "c < nxt s"
        using closedD [OF Cons.prems(2,3)] by simp
      then show ?thesis
        using Cons.IH [of c] Cons.prems Inr Some by simp
    qed
  qed
qed

lemma EnsurePath_lookup:
  assumes "EnsurePath s n path = Inr (s1, r)" "closed s" "n < nxt s"
  shows "lookup_path (heap s1) n path = Inr (Some r)"
  using assms
proof (induction path arbitrary: n)
  case Nil
  then show ?case by simp
next
  case (Cons t ts)
  show ?case
  proof (cases "first_with_tag (heap s) t (Children (heap s n))")
    case (Inl p)
    then show ?thesis using Cons.prems by simp
  next
    case (Inr found)
    show ?thesis
    proof (cases found)
      case None
      then have eq: "(s1, r) = CreatePath s n (t # ts)"
        using Inr Cons.prems(1) by (simp del: CreatePath.simps)
      have "lookup_path (heap (fst (CreatePath s n (t # ts)))) n (t # ts)
              = Inr (Some (snd (CreatePath s n (t # ts))))"
      proof (intro CreatePath_lookup)
        show "n < nxt s" by (rule Cons.prems(3))
        show "c < nxt s" if "Some c \<in> set (Children (heap s n))" for c
          using closedD [OF Cons.prems(2,3) that] .
        show "first_with_tag (heap s) (hd (t # ts)) (Children (heap s n)) = Inr None"
          using Inr None by simp
      qed
      then show ?thesis
        by (simp add: eq [symmetric] del: CreatePath.simps lookup_path.simps)
    next
      case (Some c)
      have c: "Some c \<in> set (Children (heap s n))"
        using first_with_tag_Some [of "heap s" t "Children (heap s n)" c] Inr Some by simp
      then have c_alloc: "c < nxt s"
        using closedD [OF Cons.prems(2,3)] by simp
      have rec: "EnsurePath s c ts = Inr (s1, r)"
        using Cons.prems(1) Inr Some by simp
      obtain ext where ext: "Children (heap s1 n) = Children (heap s n) @ ext"
        using EnsurePath_grows [OF Cons.prems(1,2,3) Cons.prems(3)] by blast
      have tags: "Tag (heap s1 k) = Tag (heap s k)" if "Some k \<in> set (Children (heap s n))" for k
        using EnsurePath_grows [OF Cons.prems(1,2,3), of k] closedD [OF Cons.prems(2,3) that]
        by simp
      have "first_with_tag (heap s1) t (Children (heap s n)) = Inr (Some c)"
        using first_with_tag_cong [of "Children (heap s n)" "heap s1" "heap s" t] tags Inr Some
        by simp
      then have "first_with_tag (heap s1) t (Children (heap s1 n)) = Inr (Some c)"
        by (simp add: ext first_with_tag_append)
      then show ?thesis
        using Cons.IH [OF rec Cons.prems(2) c_alloc] by simp
    qed
  qed
qed

lemma EnsurePath_returns:
  assumes "closed s" "no_nil_children s" "n < nxt s"
  shows "\<exists>s1 r. EnsurePath s n path = Inr (s1, r)"
  using assms
proof (induction path arbitrary: n)
  case Nil
  then show ?case by simp
next
  case (Cons t ts)
  have "None \<notin> set (Children (heap s n))"
    using Cons.prems by (simp add: no_nil_children_def)
  then obtain found where f: "first_with_tag (heap s) t (Children (heap s n)) = Inr found"
    using first_with_tag_no_nil by blast
  show ?case
  proof (cases found)
    case None
    then show ?thesis using f by (simp del: CreatePath.simps)
  next
    case (Some c)
    then have "Some c \<in> set (Children (heap s n))"
      using first_with_tag_Some [of "heap s" t "Children (heap s n)" c] f by simp
    then have "c < nxt s"
      using closedD [OF Cons.prems(1,3)] by simp
    then show ?thesis
      using Cons.IH [of c] Cons.prems f Some by simp
  qed
qed

text \<open>
  C7. EnsurePath is idempotent. On a store without dangling pointers and an allocated
  receiver: when a call of EnsurePath returns a store and a node, the same call repeated on
  that store returns the same node and leaves the store as it is (no allocation, no
  write, so no duplicate intermediate child); a call returns whenever no children
  sequence holds a nil entry; and with no tags the receiver is returned and the store is
  unchanged.
\<close>

theorem EnsurePath_idempotent:
  assumes "closed s" and "n < nxt s"
  shows "(\<forall>s1 r. EnsurePath s n path = Inr (s1, r) \<longrightarrow> EnsurePath s1 n path = Inr (s1, r))
       \<and> (no_nil_children s \<longrightarrow> (\<exists>s1 r. EnsurePath s n path = Inr (s1, r)))
       \<and> EnsurePath s n [] = Inr (s, n)"
proof (intro conjI allI impI)
  fix s1 r
  assume "EnsurePath s n path = Inr (s1, r)"
  then have "lookup_path (heap s1) n path = Inr (Some r)"
    using assms by (rule EnsurePath_lookup)
  then show "EnsurePath s1 n path = Inr (s1, r)"
    by (rule lookup_EnsurePath)
next
  assume "no_nil_children s"
  with assms show "\<exists>s1 r. EnsurePath s n path = Inr (s1, r)"
    by (simp add: EnsurePath_returns)
next
  show "EnsurePath s n [] = Inr (s, n)" by simp
qed

lemma example_store_closed: "closed example_store"
proof -
  have "a = 0 \<or> a = 1 \<or> a = 2 \<or> a = 3" if "a < 4" for a :: nat
    using that by arith
  then show ?thesis
    by (auto simp: closed_def example_store_def example_heap_def zero_Node_def)
qed

lemma example_store_no_nil: "no_nil_children example_store"
proof -
  have "a = 0 \<or> a = 1 \<or> a = 2 \<or> a = 3" if "a < 4" for a :: nat
    using that by arith
  then show ?thesis
    by (auto simp: no_nil_children_def example_store_def example_heap_def zero_Node_def)
qed

theorem EnsurePath_idempotent_witness:
  "closed example_store \<and> 0 < nxt example_store \<and> no_nil_children example_store
   \<and> (\<exists>s1. EnsurePath example_store 0 [''x'', ''c''] = Inr (s1, 4)
          \<and> nxt s1 = 5
          \<and> EnsurePath s1 0 [''x'', ''c''] = Inr (s1, 4))"
proof -
  have alloc: "0 < nxt example_store" by (simp add: example_store_def)
  obtain s1 where first: "EnsurePath example_store 0 [''x'', ''c''] = Inr (s1, 4)"
    and n: "nxt s1 = 5"
    by (simp add: example_store_def example_heap_def zero_Node_def alloc_def AppendChild_def)
  have "EnsurePath s1 0 [''x'', ''c''] = Inr (s1, 4)"
    using EnsurePath_idempotent [OF example_store_closed alloc, of "[''x'', ''c'']"] first
    by blast
  then show ?thesis
    using example_store_closed example_store_no_nil alloc first n by blast
qed

lemma CreatePath_chain:
  assumes "cur < nxt s" "nxt s \<le> a" "a < nxt s + length path"
  shows "heap (fst (CreatePath s cur path)) a =
           \<lparr>Tag = path ! (a - nxt s),
            Parent = Some (if a = nxt s then cur else a - 1),
            Children = (if Suc a < nxt s + length path then [Some (Suc a)] else []),
            InnerText = [], Attributes = None\<rparr>"
  using assms
proof (induction path arbitrary: s cur)
  case Nil
  then show ?case by simp
next
  case (Cons t ts)
  show ?case
  proof (cases "a = nxt s")
    case True
    have "heap (fst (CreatePath (grow s cur t) (nxt s) ts)) (nxt s) =
            (if ts = [] then heap (grow s cur t) (nxt s)
             else (heap (grow s cur t) (nxt s))
                    \<lparr>Children := Children (heap (grow s cur t) (nxt s)) @ [Some (nxt (grow s cur t))]\<rparr>)"
      by (rule CreatePath_cur) simp
    then show ?thesis
      using True Cons.prems(1)
      by (simp add: CreatePath_Cons zero_Node_def del: CreatePath.simps(2))
  next
    case False
    then have "Suc (nxt s) \<le> a" using Cons.prems by simp
    then have "heap (fst (CreatePath (grow s cur t) (nxt s) ts)) a =
           \<lparr>Tag = ts ! (a - nxt (grow s cur t)),
            Parent = Some (if a = nxt (grow s cur t) then nxt s else a - 1),
            Children = (if Suc a < nxt (grow s cur t) + length ts then [Some (Suc a)] else []),
            InnerText = [], Attributes = None\<rparr>"
      using Cons.prems by (intro Cons.IH) simp_all
    moreover have "(t # ts) ! (a - nxt s) = ts ! (a - Suc (nxt s))"
      using \<open>Suc (nxt s) \<le> a\<close> by (simp add: nth_Cons' Suc_diff_Suc) 
    ultimately show ?thesis
      using False \<open>Suc (nxt s) \<le> a\<close>
      by (simp add: CreatePath_Cons del: CreatePath.simps(2)) 
  qed
qed


lemma CreateUniquePath_effect:
  assumes "n < nxt s" "None \<notin> set (Children (heap s n))" "path \<noteq> []"
  obtains s' where
    "CreateUniquePath s n path = Inr (s', nxt s + length path - 1)"
    "nxt s' = nxt s + length path"
    "\<And>a. a < nxt s \<Longrightarrow> a \<noteq> n \<Longrightarrow> heap s' a = heap s a"
    "heap s' n = (heap s n)\<lparr>Children :=
        filter (\<lambda>p. \<not> has_tag (heap s) (hd path) p) (Children (heap s n)) @ [Some (nxt s)]\<rparr>"
    "\<And>a. nxt s \<le> a \<Longrightarrow> a < nxt s + length path \<Longrightarrow> heap s' a = chain_Node n (nxt s) path a"
proof -
  define s1 where "s1 = s\<lparr>heap := (heap s)(n := (heap s n)
          \<lparr>Children := filter (\<lambda>p. \<not> has_tag (heap s) (hd path) p) (Children (heap s n))\<rparr>)\<rparr>"
  define s' where "s' = fst (CreatePath s1 n path)"
  have rm: "RemoveChildrenWithTag s n (hd path) = Inr s1"
    using assms(2) by (simp add: RemoveChildrenWithTag_Inr_iff s1_def)
  have n1: "n < nxt s1" "nxt s1 = nxt s" using assms(1) by (simp_all add: s1_def)
  have res: "CreatePath s1 n path = (s', nxt s + length path - 1)"
    using CreatePath_result [OF n1(1), of path] assms(3) n1(2)
    by (simp add: s'_def prod_eq_iff)
  show thesis
  proof (rule that [of s'])
    show "CreateUniquePath s n path = Inr (s', nxt s + length path - 1)"
      using assms(3) rm res by (simp add: CreateUniquePath_def)
    show "nxt s' = nxt s + length path"
      using CreatePath_nxt [OF n1(1), of path] n1(2) by (simp add: s'_def)
    show "heap s' a = heap s a" if "a < nxt s" "a \<noteq> n" for a
      using CreatePath_frame [OF n1(1), of a path] that n1(2) by (simp add: s'_def) (simp add: s1_def)
    show "heap s' n = (heap s n)\<lparr>Children :=
        filter (\<lambda>p. \<not> has_tag (heap s) (hd path) p) (Children (heap s n)) @ [Some (nxt s)]\<rparr>"
      using CreatePath_cur [OF n1(1), of path] assms(3) n1(2) by (simp add: s'_def) (simp add: s1_def)
    show "heap s' a = chain_Node n (nxt s) path a" if "nxt s \<le> a" "a < nxt s + length path" for a
      using CreatePath_chain [OF n1(1), of a path] that n1(2) by (simp add: s'_def chain_Node_def)
  qed
qed

lemma RemoveChildrenWithTag_frame:
  assumes "RemoveChildrenWithTag s n tag = Inr s'"
  shows "(\<forall>c. c \<noteq> n \<longrightarrow> heap s' c = heap s c)
       \<and> (\<forall>c. Parent (heap s' c) = Parent (heap s c))
       \<and> nxt s' = nxt s
       \<and> Children (heap s' n) = filter (\<lambda>p. \<not> has_tag (heap s) tag p) (Children (heap s n))"
  using assms by (auto simp: RemoveChildrenWithTag_Inr_iff)

lemma CreateUniquePath_frame:
  assumes "CreateUniquePath s n path = Inr (s2, r)" "n < nxt s" "c < nxt s"
  shows "(c \<noteq> n \<longrightarrow> heap s2 c = heap s c) \<and> Parent (heap s2 c) = Parent (heap s c)"
proof (cases "path = []")
  case True
  then show ?thesis using assms by (simp add: CreateUniquePath_def)
next
  case False
  then obtain s1 where rm: "RemoveChildrenWithTag s n (hd path) = Inr s1"
    and cp: "CreatePath s1 n path = (s2, r)"
    using assms(1) by (auto simp: CreateUniquePath_def split: sum.splits simp del: CreatePath.simps)
  have s1: "nxt s1 = nxt s" "\<forall>c. c \<noteq> n \<longrightarrow> heap s1 c = heap s c"
    "\<forall>c. Parent (heap s1 c) = Parent (heap s c)"
    using RemoveChildrenWithTag_frame [OF rm] by simp_all
  have s2: "s2 = fst (CreatePath s1 n path)" using cp by simp
  show ?thesis
    using CreatePath_frame [of n s1 c path] CreatePath_Parent [of n s1 c path] assms(2,3) s1
    by (simp add: s2)
qed


text \<open>
  C10. Detaching does not touch the detached node. RemoveChildrenWithTag writes the
  receiver's children sequence and nothing else: every node other than the receiver, so
  every removed child and every remaining child, is the struct it was, and the parent
  back-reference of every node (of the receiver too) is the one it had. A removed child
  whose parent was the receiver still points to it, and a remaining child keeps its
  parent. The same holds for the children of the receiver across CreateUniquePath, which
  removes through RemoveChildrenWithTag and then writes only the receiver and new nodes.
\<close>

theorem detached_node_untouched:
  "(RemoveChildrenWithTag s n tag = Inr s' \<longrightarrow>
      (\<forall>c. c \<noteq> n \<longrightarrow> heap s' c = heap s c)
    \<and> (\<forall>c. Parent (heap s' c) = Parent (heap s c))
    \<and> Children (heap s' n) = filter (\<lambda>p. \<not> has_tag (heap s) tag p) (Children (heap s n)))
 \<and> (closed s \<and> n < nxt s \<and> CreateUniquePath s n path = Inr (s2, r) \<longrightarrow>
      (\<forall>c. Some c \<in> set (Children (heap s n)) \<longrightarrow>
           (c \<noteq> n \<longrightarrow> heap s2 c = heap s c) \<and> Parent (heap s2 c) = Parent (heap s c)))"
proof (intro conjI impI allI)
  assume "RemoveChildrenWithTag s n tag = Inr s'"
  note fr = RemoveChildrenWithTag_frame [OF this]
  show "Children (heap s' n) = filter (\<lambda>p. \<not> has_tag (heap s) tag p) (Children (heap s n))"
    using fr by simp
  fix c
  show "Parent (heap s' c) = Parent (heap s c)" using fr by simp
  assume "c \<noteq> n"
  then show "heap s' c = heap s c" using fr by simp
next
  fix c
  assume a: "closed s \<and> n < nxt s \<and> CreateUniquePath s n path = Inr (s2, r)"
    and c: "Some c \<in> set (Children (heap s n))"
  then have "c < nxt s" using closedD by blast
  then have fr: "(c \<noteq> n \<longrightarrow> heap s2 c = heap s c) \<and> Parent (heap s2 c) = Parent (heap s c)"
    using CreateUniquePath_frame [of s n path s2 r c] a by simp
  show "Parent (heap s2 c) = Parent (heap s c)" using fr by simp
  assume "c \<noteq> n"
  then show "heap s2 c = heap s c" using fr by simp
qed

lemma example_store_alloc: "0 < nxt example_store"
  by (simp add: example_store_def)

lemma example_heap_simps:
  "example_heap 0 = zero_Node\<lparr>Tag := ''a'', Children := [Some 1, Some 3]\<rparr>"
  "example_heap (Suc 0) = zero_Node\<lparr>Tag := ''x'', Parent := Some 0, Children := [Some 2]\<rparr>"
  "example_heap 2 = zero_Node\<lparr>Tag := ''b'', Parent := Some 1\<rparr>"
  "example_heap 3 = zero_Node\<lparr>Tag := ''b'', Parent := Some 0\<rparr>"
  "heap example_store = example_heap"
  "nxt example_store = 4"
  by (simp_all add: example_heap_def example_store_def)

theorem detached_node_untouched_witness:
  "(\<exists>s'. RemoveChildrenWithTag example_store 0 ''b'' = Inr s'
        \<and> Children (heap s' 0) = [Some 1]
        \<and> heap s' 3 = example_heap 3 \<and> Parent (heap s' 3) = Some 0
        \<and> Parent (heap s' 1) = Some 0)
 \<and> closed example_store \<and> 0 < nxt example_store
 \<and> (\<exists>s2. CreateUniquePath example_store 0 [''b''] = Inr (s2, 4)
        \<and> Children (heap s2 0) = [Some 1, Some 4]
        \<and> heap s2 3 = example_heap 3 \<and> Parent (heap s2 3) = Some 0
        \<and> Parent (heap s2 1) = Some 0)"
proof -
  note ex = example_heap_simps zero_Node_def
  obtain s' where rm: "RemoveChildrenWithTag example_store 0 ''b'' = Inr s'"
    by (simp add: RemoveChildrenWithTag_def example_store_def example_heap_def zero_Node_def)
  obtain s2 where cu: "CreateUniquePath example_store 0 [''b''] = Inr (s2, 4)"
    and kids: "Children (heap s2 0) = [Some 1, Some 4]"
    by (simp add: CreateUniquePath_def RemoveChildrenWithTag_def alloc_def AppendChild_def
        example_store_def example_heap_def zero_Node_def)
  have "Children (heap s' 0) = [Some 1] \<and> heap s' 3 = example_heap 3
      \<and> Parent (heap s' 3) = Some 0 \<and> Parent (heap s' 1) = Some 0"
    using detached_node_untouched [of example_store 0 "''b''" s' "[''b'']" s2 4] rm
    by (simp add: ex)
  moreover have "heap s2 3 = example_heap 3 \<and> Parent (heap s2 3) = Some 0
      \<and> Parent (heap s2 1) = Some 0"
    using detached_node_untouched [of example_store 0 "''b''" s' "[''b'']" s2 4] cu
      example_store_closed example_store_alloc
    by (simp add: ex)
  ultimately show ?thesis
    using rm cu kids example_store_closed example_store_alloc by blast
qed


lemma reachable_within:
  assumes "reachable h a c" "a \<in> S"
    and "\<And>b k. b \<in> S \<Longrightarrow> Some k \<in> set (Children (h b)) \<Longrightarrow> k \<in> S"
  shows "c \<in> S"
  using assms by (induction rule: reachable.induct) auto

lemma has_tag_chain_first:
  "path \<noteq> [] \<Longrightarrow> has_tag (\<lambda>a. chain_Node n b path a) (hd path) (Some b)"
  by (simp add: chain_Node_def hd_conv_nth)

lemma CreateUniquePath_children:
  assumes "closed s" "n < nxt s" "path \<noteq> []"
    and call: "CreateUniquePath s n path = Inr (s', r)"
  shows "None \<notin> set (Children (heap s n))"
    and "Children (heap s' n) =
           filter (\<lambda>p. \<not> has_tag (heap s) (hd path) p) (Children (heap s n)) @ [Some (nxt s)]"
    and "filter (has_tag (heap s') (hd path)) (Children (heap s' n)) = [Some (nxt s)]"
    and "filter (\<lambda>p. \<not> has_tag (heap s') (hd path) p) (Children (heap s' n)) =
           filter (\<lambda>p. \<not> has_tag (heap s) (hd path) p) (Children (heap s n))"
    and "closed s'"
    and "nxt s' = nxt s + length path"
    and "r = nxt s + length path - 1"
    and "\<And>a. a < nxt s \<Longrightarrow> a \<noteq> n \<Longrightarrow> heap s' a = heap s a"
    and "\<And>a. nxt s \<le> a \<Longrightarrow> a < nxt s + length path \<Longrightarrow> heap s' a = chain_Node n (nxt s) path a"
proof -
  show nonil: "None \<notin> set (Children (heap s n))"
    using call assms(3)
    by (auto simp: CreateUniquePath_def RemoveChildrenWithTag_Inr_iff split: sum.splits
        simp del: CreatePath.simps)
  obtain s0 where eff:
    "CreateUniquePath s n path = Inr (s0, nxt s + length path - 1)"
    "nxt s0 = nxt s + length path"
    "\<And>a. a < nxt s \<Longrightarrow> a \<noteq> n \<Longrightarrow> heap s0 a = heap s a"
    "heap s0 n = (heap s n)\<lparr>Children :=
        filter (\<lambda>p. \<not> has_tag (heap s) (hd path) p) (Children (heap s n)) @ [Some (nxt s)]\<rparr>"
    "\<And>a. nxt s \<le> a \<Longrightarrow> a < nxt s + length path \<Longrightarrow> heap s0 a = chain_Node n (nxt s) path a"
    using CreateUniquePath_effect [OF assms(2) nonil assms(3)] by blast
  have same: "s0 = s'" "r = nxt s + length path - 1" using eff(1) call by simp_all
  note eff' = eff(2-5) [unfolded same(1)]
  show "nxt s' = nxt s + length path" by (rule eff')
  show "r = nxt s + length path - 1" by (rule same)
  show fr: "heap s' a = heap s a" if "a < nxt s" "a \<noteq> n" for a using that by (rule eff')
  show ch: "heap s' a = chain_Node n (nxt s) path a" if "nxt s \<le> a" "a < nxt s + length path" for a
    using that by (rule eff')
  show kids: "Children (heap s' n) =
           filter (\<lambda>p. \<not> has_tag (heap s) (hd path) p) (Children (heap s n)) @ [Some (nxt s)]"
    by (simp add: eff')
  have old: "has_tag (heap s') (hd path) p = has_tag (heap s) (hd path) p"
    if "p \<in> set (Children (heap s n))" for p
  proof (cases p)
    case None
    then show ?thesis by simp
  next
    case (Some c)
    then have "c < nxt s" using that closedD [OF assms(1,2)] by simp
    then show ?thesis using Some fr [of c] by (cases "c = n") (simp_all add: eff')
  qed
  have new: "has_tag (heap s') (hd path) (Some (nxt s))"
    using ch [of "nxt s"] assms(3) by (simp add: chain_Node_def hd_conv_nth)
  have f1: "filter (has_tag (heap s') (hd path))
              (filter (\<lambda>p. \<not> has_tag (heap s) (hd path) p) (Children (heap s n))) = []"
    using old by (auto simp: filter_empty_conv)
  have f2: "filter (\<lambda>p. \<not> has_tag (heap s') (hd path) p)
              (filter (\<lambda>p. \<not> has_tag (heap s) (hd path) p) (Children (heap s n)))
            = filter (\<lambda>p. \<not> has_tag (heap s) (hd path) p) (Children (heap s n))"
    using old by (auto intro!: filter_cong)
  show "filter (has_tag (heap s') (hd path)) (Children (heap s' n)) = [Some (nxt s)]"
    using new by (simp add: kids f1 del: filter_filter)
  show "filter (\<lambda>p. \<not> has_tag (heap s') (hd path) p) (Children (heap s' n)) =
           filter (\<lambda>p. \<not> has_tag (heap s) (hd path) p) (Children (heap s n))"
    using new by (simp add: kids f2 del: filter_filter)
  show "closed s'"
    unfolding closed_def
  proof (intro allI impI)
    fix a c
    assume a: "a < nxt s'" and c: "Some c \<in> set (Children (heap s' a))"
    have len: "0 < length path" using assms(3) by simp
    consider "a = n" | "a < nxt s" "a \<noteq> n" | "nxt s \<le> a" "a < nxt s + length path"
      using a eff'(1) by linarith
    then show "c < nxt s'"
    proof cases
      case 1
      then have "Some c \<in> set (Children (heap s n)) \<or> c = nxt s"
        using c by (auto simp: kids)
      then show ?thesis
      proof
        assume "Some c \<in> set (Children (heap s n))"
        then have "c < nxt s" by (rule closedD [OF assms(1,2)])
        then show ?thesis using eff'(1) by simp
      next
        assume "c = nxt s"
        then show ?thesis using eff'(1) len by simp
      qed
    next
      case 2
      then show ?thesis
        using c fr [of a] closedD [OF assms(1), of a c] eff'(1) by simp
    next
      case 3
      then show ?thesis
        using c ch [of a] eff'(1) by (auto simp: chain_Node_def split: if_splits)
    qed
  qed
qed


lemma CreateUniquePath_twice_unreachable:
  assumes "closed s" "n < nxt s" "path \<noteq> []"
    and c1: "CreateUniquePath s n path = Inr (s', r)"
    and c2: "CreateUniquePath s' n path = Inr (s2, r2)"
    and old: "nxt s \<le> c" "c < nxt s'"
  shows "\<not> reachable (heap s2) n c"
proof
  assume reach: "reachable (heap s2) n c"
  note A = CreateUniquePath_children [OF assms(1,2,3) c1]
  have n': "n < nxt s'" using assms(2) A(6) by simp
  note B = CreateUniquePath_children [OF A(5) n' assms(3) c2]
  define S where "S = {a. a < nxt s \<or> (nxt s' \<le> a \<and> a < nxt s' + length path)}"
  have len: "0 < length path" using assms(3) by simp
  have "c \<in> S"
  proof (rule reachable_within [OF reach])
    show "n \<in> S" using assms(2) by (simp add: S_def)
  next
    fix b k
    assume b: "b \<in> S" and k: "Some k \<in> set (Children (heap s2 b))"
    consider "b = n" | "b < nxt s" "b \<noteq> n" | "nxt s' \<le> b" "b < nxt s' + length path"
      using b by (auto simp: S_def)
    then show "k \<in> S"
    proof cases
      case 1
      have "Some k \<in> set (filter (\<lambda>p. \<not> has_tag (heap s') (hd path) p) (Children (heap s' n)))
            \<or> k = nxt s'"
        using k 1 by (auto simp: B(2))
      then have "Some k \<in> set (Children (heap s n)) \<or> k = nxt s'"
        unfolding A(4) by auto
      then show ?thesis
        using closedD [OF assms(1,2), of k] len by (auto simp: S_def)
    next
      case 2
      then have "b < nxt s'" using A(6) by simp
      then have "heap s2 b = heap s b"
        using B(8) [of b] A(8) [of b] 2 by simp
      then show ?thesis
        using k closedD [OF assms(1) 2(1), of k] by (simp add: S_def)
    next
      case 3
      then show ?thesis
        using k B(9) [of b] by (auto simp: chain_Node_def S_def split: if_splits)
    qed
  qed
  then show False using old A(6) by (simp add: S_def)
qed

text \<open>
  C8. CreateUniquePath replaces. On a store without dangling pointers, for an allocated
  receiver whose children sequence has no nil entry and a non-empty tag sequence, the call
  returns; the receiver's children are then the former children without those carrying
  the first tag, in their former order, followed by one new node; that new node is the
  only child carrying the first tag; it heads the new chain, one new node per tag, each
  the only child of the one before; the deepest new node is returned. A second call
  with the same tags returns as well, again leaving one child with the first tag (a new
  one), and no node of the first call's chain is reachable from the receiver afterwards.
\<close>

theorem CreateUniquePath_replaces:
  assumes "closed s" "n < nxt s" "None \<notin> set (Children (heap s n))" "path \<noteq> []"
  shows "\<exists>s' r. CreateUniquePath s n path = Inr (s', r)
      \<and> Children (heap s' n) =
          filter (\<lambda>p. \<not> has_tag (heap s) (hd path) p) (Children (heap s n)) @ [Some (nxt s)]
      \<and> filter (has_tag (heap s') (hd path)) (Children (heap s' n)) = [Some (nxt s)]
      \<and> filter (\<lambda>p. \<not> has_tag (heap s') (hd path) p) (Children (heap s' n)) =
          filter (\<lambda>p. \<not> has_tag (heap s) (hd path) p) (Children (heap s n))
      \<and> (\<forall>a. nxt s \<le> a \<and> a < nxt s + length path \<longrightarrow> heap s' a = chain_Node n (nxt s) path a)
      \<and> r = nxt s + length path - 1 \<and> nxt s' = nxt s + length path
      \<and> (\<exists>s2 r2. CreateUniquePath s' n path = Inr (s2, r2)
            \<and> filter (has_tag (heap s2) (hd path)) (Children (heap s2 n)) = [Some (nxt s')]
            \<and> (\<forall>c. nxt s \<le> c \<and> c < nxt s' \<longrightarrow> \<not> reachable (heap s2) n c))"
proof -
  obtain s' where c1: "CreateUniquePath s n path = Inr (s', nxt s + length path - 1)"
    using CreateUniquePath_effect [OF assms(2,3,4)] by blast
  note A = CreateUniquePath_children [OF assms(1,2,4) c1]
  have n': "n < nxt s'" using assms(2) A(6) by simp
  have nonil': "None \<notin> set (Children (heap s' n))"
    using assms(3) by (simp add: A(2))
  obtain s2 where c2: "CreateUniquePath s' n path = Inr (s2, nxt s' + length path - 1)"
    using CreateUniquePath_effect [OF n' nonil' assms(4)] by blast
  note B = CreateUniquePath_children [OF A(5) n' assms(4) c2]
  have unreach: "\<forall>c. nxt s \<le> c \<and> c < nxt s' \<longrightarrow> \<not> reachable (heap s2) n c"
    using CreateUniquePath_twice_unreachable [OF assms(1,2,4) c1 c2] by blast
  have chain: "\<forall>a. nxt s \<le> a \<and> a < nxt s + length path \<longrightarrow> heap s' a = chain_Node n (nxt s) path a"
    using A(9) by blast
  show ?thesis
    using c1 A(2) A(3) A(4) chain A(6) c2 B(3) unreach by blast
qed


theorem CreateUniquePath_replaces_witness:
  "closed example_store \<and> 0 < nxt example_store
   \<and> None \<notin> set (Children (heap example_store 0)) \<and> [''b'', ''c''] \<noteq> []
   \<and> (\<exists>s' s2 r2. CreateUniquePath example_store 0 [''b'', ''c''] = Inr (s', 5)
         \<and> Children (heap s' 0) = [Some 1, Some 4]
         \<and> Tag (heap s' 4) = ''b'' \<and> Children (heap s' 4) = [Some 5]
         \<and> Tag (heap s' 5) = ''c'' \<and> Children (heap s' 5) = []
         \<and> CreateUniquePath s' 0 [''b'', ''c''] = Inr (s2, r2)
         \<and> filter (has_tag (heap s2) ''b'') (Children (heap s2 0)) = [Some 6]
         \<and> \<not> reachable (heap s2) 0 4 \<and> \<not> reachable (heap s2) 0 5)"
proof -
  note ex = example_heap_simps zero_Node_def
  have nonil: "None \<notin> set (Children (heap example_store 0))" by (simp add: ex)
  have ne: "[''b'', ''c''] \<noteq> []" by simp
  obtain s' r s2 r2 where
    c1: "CreateUniquePath example_store 0 [''b'', ''c''] = Inr (s', r)"
    and kids: "Children (heap s' 0) =
          filter (\<lambda>p. \<not> has_tag (heap example_store) (hd [''b'', ''c'']) p)
            (Children (heap example_store 0)) @ [Some (nxt example_store)]"
    and chain: "\<forall>a. nxt example_store \<le> a \<and> a < nxt example_store + length [''b'', ''c''] \<longrightarrow>
           heap s' a = chain_Node 0 (nxt example_store) [''b'', ''c''] a"
    and r: "r = nxt example_store + length [''b'', ''c''] - 1"
    and n': "nxt s' = nxt example_store + length [''b'', ''c'']"
    and c2: "CreateUniquePath s' 0 [''b'', ''c''] = Inr (s2, r2)"
    and one: "filter (has_tag (heap s2) (hd [''b'', ''c''])) (Children (heap s2 0)) = [Some (nxt s')]"
    and unreach: "\<forall>c. nxt example_store \<le> c \<and> c < nxt s' \<longrightarrow> \<not> reachable (heap s2) 0 c"
    using CreateUniquePath_replaces [OF example_store_closed example_store_alloc nonil ne]
    by blast
  have "r = 5" using r by (simp add: ex)
  moreover have "Children (heap s' 0) = [Some 1, Some 4]" using kids by (simp add: ex)
  moreover have "heap s' 4 = chain_Node 0 4 [''b'', ''c''] 4" "heap s' 5 = chain_Node 0 4 [''b'', ''c''] 5"
    using chain by (simp_all add: ex)
  then have "Tag (heap s' 4) = ''b'' \<and> Children (heap s' 4) = [Some 5]
      \<and> Tag (heap s' 5) = ''c'' \<and> Children (heap s' 5) = []"
    by (simp add: chain_Node_def)
  moreover have "filter (has_tag (heap s2) ''b'') (Children (heap s2 0)) = [Some 6]"
    using one n' by (simp add: ex)
  moreover have "\<not> reachable (heap s2) 0 4 \<and> \<not> reachable (heap s2) 0 5"
    using unreach n' by (simp add: ex)
  ultimately show ?thesis
    using example_store_closed example_store_alloc nonil c1 c2 by blast
qed

subsection \<open>The deserializer on well-nested content\<close>

lemma xTag_absorb [simp]: "xTag (absorb n ms) = xTag n"
  by (induction n ms rule: absorb.induct) simp_all

lemma unmarshal_loop_misc [simp]:
  "unmarshal_loop n (Inr (misc_token m) # d) = unmarshal_loop n d"
  by (cases m) simp_all

lemma unmarshal_loop_absorb:
  assumes "\<forall>m \<in> set ms. well_nested m" and "Local en = xTag n"
  shows "unmarshal_loop n (map Inr (concat (map tokens_of ms) @ [TEndElement en]) @ rest)
           = Inr (absorb n ms, rest)"
  using assms
proof (induction n ms arbitrary: en rest rule: absorb.induct)
  case (1 n)
  then show ?case by simp
next
  case (2 n s ms)
  then show ?case by simp
next
  case (3 n m ms)
  then show ?case by simp
next
  case (4 n st body en' ms)
  have body: "unmarshal_loop (set_start zero_XNode st)
          (map Inr (concat (map tokens_of body) @ [TEndElement en'])
            @ (map Inr (concat (map tokens_of ms) @ [TEndElement en]) @ rest))
        = Inr (absorb (set_start zero_XNode st) body,
               map Inr (concat (map tokens_of ms) @ [TEndElement en]) @ rest)"
    using "4.prems" by (intro "4.IH"(1)) (simp_all add: set_start_def)
  have tail: "unmarshal_loop
          (XNode (xTag n) (xChildren n @ [Some (absorb (set_start zero_XNode st) body)])
             (xInnerText n) (xAttributes n))
          (map Inr (concat (map tokens_of ms) @ [TEndElement en]) @ rest)
        = Inr (absorb (XNode (xTag n)
                 (xChildren n @ [Some (absorb (set_start zero_XNode st) body)])
                 (xInnerText n) (xAttributes n)) ms, rest)"
    using "4.prems" by (intro "4.IH"(2)) simp_all
  show ?case
    using body tail by simp
qed

lemma strip_leading_Nil [simp]: "strip_leading ps [] = []"
proof -
  have "find (\<lambda>p. p \<noteq> [] \<and> take (length p) [] = p) ps = None"
    by (auto simp: find_None_iff)
  then show ?thesis by (subst strip_leading.simps) simp
qed

lemma TrimSpace_Nil [simp]: "TrimSpace [] = []"
  by (simp add: TrimSpace_def)

lemma xTag_set_start [simp]: "xTag (set_start n start) = Local (StartName start)"
  by (simp add: set_start_def)


lemma find_space_rune:
  "p \<in> set space_runes \<Longrightarrow>
   find (\<lambda>q. q \<noteq> [] \<and> take (length q) (p @ t) = q) space_runes = Some p"
  unfolding space_runes_def set_simps insert_iff empty_iff
  by (elim disjE FalseE) simp_all

lemma strip_leading_spaces:
  "set rs \<subseteq> set space_runes \<Longrightarrow> strip_leading space_runes (concat rs) = []"
proof (induction rs)
  case Nil
  then show ?case by simp
next
  case (Cons r rs)
  then have "find (\<lambda>q. q \<noteq> [] \<and> take (length q) (r @ concat rs) = q) space_runes = Some r"
    by (intro find_space_rune) simp
  then show ?case
    using Cons by (subst strip_leading.simps) simp
qed

lemma TrimSpace_spaces: "set rs \<subseteq> set space_runes \<Longrightarrow> TrimSpace (concat rs) = []"
  by (simp add: TrimSpace_def strip_leading_spaces)



subsection \<open>The deserializer behind the decoder of xml.Unmarshal\<close>

lemma properly_nested_well_nested: "properly_nested m \<Longrightarrow> well_nested m"
  by (induction m) auto

lemma Token_calls_misc [simp]:
  "Token_calls stk (Inr (misc_token m) # raw) = Inr (misc_token m) # Token_calls stk raw"
  by (cases m) simp_all

lemma Token_calls_End [simp]:
  "Token_calls (name # stk) (Inr (TEndElement name) # raw)
     = Inr (TEndElement name) # Token_calls stk raw"
  by simp

lemma Token_calls_content:
  fixes n :: XNode
  assumes "\<forall>m \<in> set body. properly_nested m"
  shows "Token_calls stk (map Inr (concat (map tokens_of body)) @ raw)
     = map Inr (concat (map tokens_of body)) @ Token_calls stk raw"
  using assms
proof (induction n body arbitrary: stk raw rule: absorb.induct)
  case (4 n st body en ms)
  have en: "en = StartName st" and body: "\<forall>m \<in> set body. properly_nested m"
    and ms: "\<forall>m \<in> set ms. properly_nested m"
    using "4.prems" by simp_all
  have inner: "Token_calls (StartName st # stk)
        (map Inr (concat (map tokens_of body)) @ Inr (TEndElement en) # map Inr (concat (map tokens_of ms)) @ raw)
      = map Inr (concat (map tokens_of body))
          @ Token_calls (StartName st # stk) (Inr (TEndElement en) # map Inr (concat (map tokens_of ms)) @ raw)"
    by (rule "4.IH"(1) [OF body])
  show ?case
    using inner "4.IH"(2) [OF ms, of stk raw] by (simp add: en del: Token_calls.simps(4))
qed simp_all

lemma unmarshal_loop_checked:
  "unmarshal_loop n (Token_calls (opened # stk) raw) = Inr (n', d') \<Longrightarrow> Local opened = xTag n \<Longrightarrow>
   \<exists>body rest. raw = map Inr (concat (map tokens_of body) @ [TEndElement opened]) @ rest
       \<and> (\<forall>m \<in> set body. properly_nested m) \<and> d' = Token_calls stk rest \<and> n' = absorb n body"
proof (induction raw arbitrary: n opened stk n' d' rule: length_induct)
  case (1 raw)
  have IH: "\<exists>body rest. ys = map Inr (concat (map tokens_of body) @ [TEndElement op]) @ rest
       \<and> (\<forall>m \<in> set body. properly_nested m) \<and> d2 = Token_calls st2 rest \<and> n2 = absorb m body"
    if "length ys < length raw" "unmarshal_loop m (Token_calls (op # st2) ys) = Inr (n2, d2)"
       "Local op = xTag m" for ys m op st2 n2 d2
    using "1.IH" that by blast
  note run = "1.prems"(1) and tag = "1.prems"(2)
  show ?case
  proof (cases raw)
    case Nil
    then show ?thesis using run by simp
  next
    case (Cons r raw')
    have len: "length raw' < length raw" using Cons by simp
    show ?thesis
    proof (cases r)
      case (Inl e)
      then show ?thesis using run Cons by simp
    next
      case (Inr t)
      show ?thesis
      proof (cases t)
        case (TStartElement st)
        from run obtain child d1 where
          child: "unmarshal_loop (set_start zero_XNode st)
                    (Token_calls (StartName st # opened # stk) raw') = Inr (child, d1)"
          and tail: "unmarshal_loop (XNode (xTag n) (xChildren n @ [Some child]) (xInnerText n)
                       (xAttributes n)) d1 = Inr (n', d')"
          unfolding Cons Inr TStartElement by (auto split: sum.splits)
        obtain body1 rest1 where
          raw': "raw' = map Inr (concat (map tokens_of body1) @ [TEndElement (StartName st)]) @ rest1"
          and b1: "\<forall>m \<in> set body1. properly_nested m"
          and d1: "d1 = Token_calls (opened # stk) rest1"
          and c1: "child = absorb (set_start zero_XNode st) body1"
          using IH [OF len child] by (auto simp: set_start_def)
        have len1: "length rest1 < length raw" using raw' len by simp
        obtain body2 rest where
          rest1: "rest1 = map Inr (concat (map tokens_of body2) @ [TEndElement opened]) @ rest"
          and b2: "\<forall>m \<in> set body2. properly_nested m"
          and d': "d' = Token_calls stk rest"
          and n': "n' = absorb (XNode (xTag n) (xChildren n @ [Some child]) (xInnerText n)
                       (xAttributes n)) body2"
          using IH [OF len1 tail [unfolded d1]] tag by auto
        define body where "body = Element st body1 (StartName st) # body2"
        have "raw = map Inr (concat (map tokens_of body) @ [TEndElement opened]) @ rest"
          by (simp add: Cons Inr TStartElement raw' rest1 body_def)
        moreover have "\<forall>m \<in> set body. properly_nested m"
          using b1 b2 by (simp add: body_def)
        moreover have "n' = absorb n body"
          by (simp add: body_def n' c1)
        ultimately show ?thesis using d' by blast
      next
        case (TEndElement name)
        show ?thesis
        proof (cases "opened = name")
          case True
          then have "n' = n" "d' = Token_calls stk raw'"
            using run tag unfolding Cons Inr TEndElement by simp_all
          then have "raw = map Inr (concat (map tokens_of []) @ [TEndElement opened]) @ raw'"
            "n' = absorb n []" "\<forall>m \<in> set ([] :: markup list). properly_nested m"
            using True by (simp_all add: Cons Inr TEndElement)
          then show ?thesis using \<open>d' = Token_calls stk raw'\<close> by blast
        next
          case False
          then have "Local opened \<noteq> Local name \<or> Space opened \<noteq> Space name"
            by (cases opened; cases name) auto
          then show ?thesis
            using run unfolding Cons Inr TEndElement by (auto split: if_splits)
        qed
      next
        case (TCharData s)
        from run have inner: "unmarshal_loop (XNode (xTag n) (xChildren n) (TrimSpace s) (xAttributes n))
                         (Token_calls (opened # stk) raw') = Inr (n', d')"
          unfolding Cons Inr TCharData by simp
        have tag': "Local opened = xTag (XNode (xTag n) (xChildren n) (TrimSpace s) (xAttributes n))"
          using tag by simp
        obtain body' rest where
          "raw' = map Inr (concat (map tokens_of body') @ [TEndElement opened]) @ rest"
          "\<forall>m \<in> set body'. properly_nested m" "d' = Token_calls stk rest"
          "n' = absorb (XNode (xTag n) (xChildren n) (TrimSpace s) (xAttributes n)) body'"
          using IH [OF len inner tag'] by blast
        then have "raw = map Inr (concat (map tokens_of (Text s # body')) @ [TEndElement opened]) @ rest"
          "\<forall>m \<in> set (Text s # body'). properly_nested m" "d' = Token_calls stk rest"
          "n' = absorb n (Text s # body')"
          by (simp_all add: Cons Inr TCharData)
        then show ?thesis by blast
      next
        case (TComment c)
        from run have inner: "unmarshal_loop n (Token_calls (opened # stk) raw') = Inr (n', d')"
          unfolding Cons Inr TComment by simp
        obtain body' rest where
          "raw' = map Inr (concat (map tokens_of body') @ [TEndElement opened]) @ rest"
          "\<forall>m \<in> set body'. properly_nested m" "d' = Token_calls stk rest" "n' = absorb n body'"
          using IH [OF len inner tag] by blast
        then have "raw = map Inr (concat (map tokens_of (Ignored (Comment c) # body')) @ [TEndElement opened]) @ rest"
          "\<forall>m \<in> set (Ignored (Comment c) # body'). properly_nested m" "d' = Token_calls stk rest"
          "n' = absorb n (Ignored (Comment c) # body')"
          by (simp_all add: Cons Inr TComment)
        then show ?thesis by blast
      next
        case (TProcInst c i)
        from run have inner: "unmarshal_loop n (Token_calls (opened # stk) raw') = Inr (n', d')"
          unfolding Cons Inr TProcInst by simp
        obtain body' rest where
          "raw' = map Inr (concat (map tokens_of body') @ [TEndElement opened]) @ rest"
          "\<forall>m \<in> set body'. properly_nested m" "d' = Token_calls stk rest" "n' = absorb n body'"
          using IH [OF len inner tag] by blast
        then have "raw = map Inr (concat (map tokens_of (Ignored (ProcInst c i) # body')) @ [TEndElement opened]) @ rest"
          "\<forall>m \<in> set (Ignored (ProcInst c i) # body'). properly_nested m" "d' = Token_calls stk rest"
          "n' = absorb n (Ignored (ProcInst c i) # body')"
          by (simp_all add: Cons Inr TProcInst)
        then show ?thesis by blast
      next
        case (TDirective c)
        from run have inner: "unmarshal_loop n (Token_calls (opened # stk) raw') = Inr (n', d')"
          unfolding Cons Inr TDirective by simp
        obtain body' rest where
          "raw' = map Inr (concat (map tokens_of body') @ [TEndElement opened]) @ rest"
          "\<forall>m \<in> set body'. properly_nested m" "d' = Token_calls stk rest" "n' = absorb n body'"
          using IH [OF len inner tag] by blast
        then have "raw = map Inr (concat (map tokens_of (Ignored (Directive c) # body')) @ [TEndElement opened]) @ rest"
          "\<forall>m \<in> set (Ignored (Directive c) # body'). properly_nested m" "d' = Token_calls stk rest"
          "n' = absorb n (Ignored (Directive c) # body')"
          by (simp_all add: Cons Inr TDirective)
        then show ?thesis by blast
      qed
    qed
  qed
qed

lemma xml_Unmarshal_prolog:
  "\<forall>t \<in> set pre. \<not> is_tag t \<Longrightarrow>
   xml_Unmarshal (Token_calls [] (map Inr pre @ raw)) = xml_Unmarshal (Token_calls [] raw)"
proof (induction pre)
  case Nil
  then show ?case by simp
next
  case (Cons t pre)
  then show ?case by (cases t) simp_all
qed

lemma xml_Unmarshal_root:
  "xml_Unmarshal (Token_calls [] raw) = Inr n \<Longrightarrow>
   \<exists>pre st raw' d'. raw = map Inr pre @ Inr (TStartElement st) # raw' \<and> (\<forall>t \<in> set pre. \<not> is_tag t)
      \<and> unmarshal_loop (set_start zero_XNode st) (Token_calls [StartName st] raw') = Inr (n, d')"
proof (induction raw)
  case Nil
  then show ?case by simp
next
  case (Cons r raw)
  show ?case
  proof (cases r)
    case (Inl e)
    then show ?thesis using Cons.prems by simp
  next
    case (Inr t)
    have skip: ?thesis
      if "\<not> is_tag t" and run: "xml_Unmarshal (Token_calls [] raw) = Inr n"
    proof -
      obtain pre st raw' d' where "raw = map Inr pre @ Inr (TStartElement st) # raw'"
        "\<forall>t \<in> set pre. \<not> is_tag t"
        "unmarshal_loop (set_start zero_XNode st) (Token_calls [StartName st] raw') = Inr (n, d')"
        using Cons.IH [OF run] by blast
      then have "r # raw = map Inr (t # pre) @ Inr (TStartElement st) # raw'"
        "\<forall>u \<in> set (t # pre). \<not> is_tag u"
        using that Inr by simp_all
      then show ?thesis
        using \<open>unmarshal_loop (set_start zero_XNode st) (Token_calls [StartName st] raw') = Inr (n, d')\<close>
        by blast
    qed
    show ?thesis
    proof (cases t)
      case (TStartElement st)
      from Cons.prems obtain d' where
        "unmarshal_loop (set_start zero_XNode st) (Token_calls [StartName st] raw) = Inr (n, d')"
        unfolding Inr TStartElement by (auto simp: UnmarshalXML_def split: sum.splits)
      moreover have "r # raw = map Inr [] @ Inr (TStartElement st) # raw"
        "\<forall>t \<in> set ([] :: Token list). \<not> is_tag t"
        by (simp_all add: Inr TStartElement)
      ultimately show ?thesis by blast
    next
      case (TEndElement name)
      then show ?thesis using Cons.prems Inr by simp
    next
      case (TCharData s)
      then show ?thesis using skip Cons.prems Inr by simp
    next
      case (TComment c)
      then show ?thesis using skip Cons.prems Inr by simp
    next
      case (TProcInst c i)
      then show ?thesis using skip Cons.prems Inr by simp
    next
      case (TDirective c)
      then show ?thesis using skip Cons.prems Inr by simp
    qed
  qed
qed

lemma xml_Unmarshal_element:
  assumes "\<forall>t \<in> set pre. \<not> is_tag t" and "\<forall>m \<in> set body. properly_nested m"
  shows "xml_Unmarshal (Token_calls []
            (map Inr (pre @ tokens_of (Element st body (StartName st))) @ rest))
         = Inr (parse_element (Element st body (StartName st)))"
proof -
  have nested: "\<forall>m \<in> set body. well_nested m"
    using assms(2) properly_nested_well_nested by blast
  have "Token_calls [StartName st]
          (map Inr (concat (map tokens_of body)) @ Inr (TEndElement (StartName st)) # rest)
        = map Inr (concat (map tokens_of body)) @ Inr (TEndElement (StartName st)) # Token_calls [] rest"
    using Token_calls_content [OF assms(2)] by simp
  then have toks: "Token_calls [] (map Inr (tokens_of (Element st body (StartName st))) @ rest)
      = Inr (TStartElement st)
          # map Inr (concat (map tokens_of body) @ [TEndElement (StartName st)]) @ Token_calls [] rest"
    by simp
  have "unmarshal_loop (set_start zero_XNode st)
          (map Inr (concat (map tokens_of body) @ [TEndElement (StartName st)]) @ Token_calls [] rest)
        = Inr (absorb (set_start zero_XNode st) body, Token_calls [] rest)"
    using nested by (intro unmarshal_loop_absorb) simp_all
  then have "xml_Unmarshal (Token_calls [] (map Inr (tokens_of (Element st body (StartName st))) @ rest))
      = Inr (parse_element (Element st body (StartName st)))"
    unfolding toks by (simp add: UnmarshalXML_def)
  then show ?thesis
    using xml_Unmarshal_prolog [OF assms(1), of "map Inr (tokens_of (Element st body (StartName st))) @ rest"]
    by simp
qed

text \<open>
  C4, as it holds of the code. Read through the decoder of xml.Unmarshal, deserialization
  returns a node only for a text that, after character data, comments, processing
  instructions and directives, holds an element in which every element is closed by an
  end element with its own name; it then returns the node for that element. Every
  departure from this before the end of that element is a failure returned to the
  caller: an error in the text, the end of the text, an end element that does not name
  the open element. An end element with another name than the open element's never
  reaches the loop of UnmarshalXML as a token to skip: the decoder returns a syntax error
  in its place, and UnmarshalXML returns that error, wrapped by ers.Trace.
\<close>

theorem Unmarshal_well_formed:
  "(xml_Unmarshal (Token_calls [] raw) = Inr n \<longrightarrow>
      (\<exists>pre st body rest.
          raw = map Inr (pre @ tokens_of (Element st body (StartName st))) @ rest
        \<and> (\<forall>t \<in> set pre. \<not> is_tag t) \<and> (\<forall>m \<in> set body. properly_nested m)
        \<and> n = parse_element (Element st body (StartName st))))
 \<and> ((\<forall>t \<in> set pre. \<not> is_tag t) \<and> (\<forall>m \<in> set body. properly_nested m) \<longrightarrow>
      xml_Unmarshal (Token_calls [] (map Inr (pre @ tokens_of (Element st body (StartName st))) @ rest))
        = Inr (parse_element (Element st body (StartName st))))
 \<and> (opened \<noteq> name \<longrightarrow>
      (\<exists>msg. Token_calls (opened # stk) (Inr (TEndElement name) # later) = [Inl (SyntaxError msg)]
           \<and> unmarshal_loop m (Token_calls (opened # stk) (Inr (TEndElement name) # later))
               = Inl (Trace (SyntaxError msg))))"
proof (intro conjI impI)
  assume run: "xml_Unmarshal (Token_calls [] raw) = Inr n"
  obtain pre st raw' d' where raw: "raw = map Inr pre @ Inr (TStartElement st) # raw'"
    and pre: "\<forall>t \<in> set pre. \<not> is_tag t"
    and loop: "unmarshal_loop (set_start zero_XNode st) (Token_calls [StartName st] raw') = Inr (n, d')"
    using xml_Unmarshal_root [OF run] by blast
  obtain body rest where
    raw': "raw' = map Inr (concat (map tokens_of body) @ [TEndElement (StartName st)]) @ rest"
    and body: "\<forall>m \<in> set body. properly_nested m"
    and n: "n = absorb (set_start zero_XNode st) body"
    using unmarshal_loop_checked [OF loop] by auto
  have "raw = map Inr (pre @ tokens_of (Element st body (StartName st))) @ rest"
    by (simp add: raw raw')
  moreover have "n = parse_element (Element st body (StartName st))"
    by (simp add: n)
  ultimately show "\<exists>pre st body rest.
          raw = map Inr (pre @ tokens_of (Element st body (StartName st))) @ rest
        \<and> (\<forall>t \<in> set pre. \<not> is_tag t) \<and> (\<forall>m \<in> set body. properly_nested m)
        \<and> n = parse_element (Element st body (StartName st))"
    using pre body by blast
next
  assume "(\<forall>t \<in> set pre. \<not> is_tag t) \<and> (\<forall>m \<in> set body. properly_nested m)"
  then show "xml_Unmarshal (Token_calls [] (map Inr (pre @ tokens_of (Element st body (StartName st))) @ rest))
        = Inr (parse_element (Element st body (StartName st)))"
    using xml_Unmarshal_element by blast
next
  assume "opened \<noteq> name"
  then have "Local opened \<noteq> Local name \<or> Space opened \<noteq> Space name"
    by (cases opened; cases name) auto
  then show "\<exists>msg. Token_calls (opened # stk) (Inr (TEndElement name) # later) = [Inl (SyntaxError msg)]
           \<and> unmarshal_loop m (Token_calls (opened # stk) (Inr (TEndElement name) # later))
               = Inl (Trace (SyntaxError msg))"
    by auto
qed

theorem Unmarshal_well_formed_witness:
  "xml_Unmarshal (Token_calls []
       (map Inr [TComment ''c'', TStartElement (StartElement (Name [] ''a'') []), TCharData ''x'',
                 TEndElement (Name [] ''a''), TEndElement (Name [] ''b'')]))
     = Inr (XNode ''a'' [] ''x'' (Some Map.empty))
 \<and> (\<exists>pre st body rest.
        map Inr [TComment ''c'', TStartElement (StartElement (Name [] ''a'') []), TCharData ''x'',
                 TEndElement (Name [] ''a''), TEndElement (Name [] ''b'')]
          = map Inr (pre @ tokens_of (Element st body (StartName st))) @ (rest :: Decoder)
      \<and> list_all (\<lambda>t. \<not> is_tag t) pre \<and> list_all properly_nested body
      \<and> XNode ''a'' [] ''x'' (Some Map.empty) = parse_element (Element st body (StartName st)))
 \<and> Name [] ''a'' \<noteq> Name [] ''b''
 \<and> (\<exists>msg. Token_calls [Name [] ''a''] [Inr (TEndElement (Name [] ''b'')), Inr (TEndElement (Name [] ''a''))]
             = [Inl (SyntaxError msg)]
          \<and> unmarshal_loop (XNode ''a'' [] [] (Some Map.empty))
               (Token_calls [Name [] ''a''] [Inr (TEndElement (Name [] ''b'')), Inr (TEndElement (Name [] ''a''))])
             = Inl (Trace (SyntaxError msg)))
 \<and> xml_Unmarshal (Token_calls []
       (map Inr [TStartElement (StartElement (Name [] ''a'') []), TEndElement (Name [] ''b''),
                 TEndElement (Name [] ''a'')]))
     = Inl (Trace (SyntaxError ''element <a> closed by </b>''))
 \<and> xml_Unmarshal (Token_calls []
       (map Inr [TStartElement (StartElement (Name [] ''a'') []),
                 TStartElement (StartElement (Name [] ''b'') []), TEndElement (Name [] ''c''),
                 TEndElement (Name [] ''b''), TEndElement (Name [] ''a'')]))
     = Inl (Trace (Trace (SyntaxError ''element <b> closed by </c>'')))
 \<and> xml_Unmarshal (Token_calls []
       (map Inr [TStartElement (StartElement (Name [] ''a'') []),
                 TStartElement (StartElement (Name [] ''b'') []), TEndElement (Name [] ''b'')]))
     = Inl (Trace (SyntaxError ''unexpected EOF''))
 \<and> xml_Unmarshal (Token_calls []
       [Inr (TStartElement (StartElement (Name [] ''a'') [])), Inl (SyntaxError ''expected attribute name in element'')])
     = Inl (Trace (SyntaxError ''expected attribute name in element''))"
proof -
  define raw where "raw = map (Inr :: Token \<Rightarrow> error + Token)
      [TComment ''c'', TStartElement (StartElement (Name [] ''a'') []), TCharData ''x'',
       TEndElement (Name [] ''a''), TEndElement (Name [] ''b'')]"
  have raw: "map Inr [TComment ''c'', TStartElement (StartElement (Name [] ''a'') []), TCharData ''x'',
                 TEndElement (Name [] ''a''), TEndElement (Name [] ''b'')] = raw"
    by (simp add: raw_def)
  have trim: "TrimSpace ''x'' = ''x''"
    by (simp add: TrimSpace_def space_runes_def strip_leading.simps)
  have pre: "\<forall>t \<in> set [TComment ''c'']. \<not> is_tag t" by simp
  have body: "\<forall>m \<in> set [Text ''x'']. properly_nested m" by simp
  note inst = Unmarshal_well_formed
    [where pre = "[TComment ''c'']" and body = "[Text ''x'']"
       and st = "StartElement (Name [] ''a'') []" and rest = "[Inr (TEndElement (Name [] ''b''))]"
       and raw = raw and n = "XNode ''a'' [] ''x'' (Some Map.empty)"
       and opened = "Name [] ''a''" and name = "Name [] ''b''" and stk = "[]"
       and later = "[Inr (TEndElement (Name [] ''a''))]"
       and m = "XNode ''a'' [] [] (Some Map.empty)"]
  have run: "xml_Unmarshal (Token_calls [] raw) = Inr (XNode ''a'' [] ''x'' (Some Map.empty))"
    using inst pre body
    by (simp add: raw_def set_start_def zero_XNode_def attrs_of_start_def trim)
  have shape: "\<exists>pre st body rest.
        raw = map Inr (pre @ tokens_of (Element st body (StartName st))) @ rest
      \<and> list_all (\<lambda>t. \<not> is_tag t) pre \<and> list_all properly_nested body
      \<and> XNode ''a'' [] ''x'' (Some Map.empty) = parse_element (Element st body (StartName st))"
    using inst run unfolding list_all_iff by blast
  have mismatch: "\<exists>msg. Token_calls [Name [] ''a''] [Inr (TEndElement (Name [] ''b'')), Inr (TEndElement (Name [] ''a''))]
             = [Inl (SyntaxError msg)]
          \<and> unmarshal_loop (XNode ''a'' [] [] (Some Map.empty))
               (Token_calls [Name [] ''a''] [Inr (TEndElement (Name [] ''b'')), Inr (TEndElement (Name [] ''a''))])
             = Inl (Trace (SyntaxError msg))"
    using inst by blast
  have fails: "xml_Unmarshal (Token_calls []
       (map Inr [TStartElement (StartElement (Name [] ''a'') []), TEndElement (Name [] ''b''),
                 TEndElement (Name [] ''a'')]))
     = Inl (Trace (SyntaxError ''element <a> closed by </b>''))"
    "xml_Unmarshal (Token_calls []
       (map Inr [TStartElement (StartElement (Name [] ''a'') []),
                 TStartElement (StartElement (Name [] ''b'') []), TEndElement (Name [] ''c''),
                 TEndElement (Name [] ''b''), TEndElement (Name [] ''a'')]))
     = Inl (Trace (Trace (SyntaxError ''element <b> closed by </c>'')))"
    "xml_Unmarshal (Token_calls []
       (map Inr [TStartElement (StartElement (Name [] ''a'') []),
                 TStartElement (StartElement (Name [] ''b'') []), TEndElement (Name [] ''b'')]))
     = Inl (Trace (SyntaxError ''unexpected EOF''))"
    "xml_Unmarshal (Token_calls []
       [Inr (TStartElement (StartElement (Name [] ''a'') [])), Inl (SyntaxError ''expected attribute name in element'')])
     = Inl (Trace (SyntaxError ''expected attribute name in element''))"
    by (simp_all add: UnmarshalXML_def set_start_def zero_XNode_def attrs_of_start_def)
  have differ: "Name [] ''a'' \<noteq> Name [] ''b''" by simp
  show ?thesis
    unfolding raw
    by (intro conjI run shape differ mismatch fails)
qed

text \<open>
  What follows the end of the first element is not read. The text \<^verbatim>\<open><a></a></b>\<close> is not
  well formed, and the decoder reports its third token as a syntax error when asked for
  it; deserialization returns the node \<open>a\<close> and no failure.
\<close>

theorem trailing_input_not_read:
  "Token_calls []
     (map Inr [TStartElement (StartElement (Name [] ''a'') []), TEndElement (Name [] ''a''),
               TEndElement (Name [] ''b'')])
   = [Inr (TStartElement (StartElement (Name [] ''a'') [])), Inr (TEndElement (Name [] ''a'')),
      Inl (SyntaxError ''unexpected end element </b>'')]
 \<and> xml_Unmarshal (Token_calls []
     (map Inr [TStartElement (StartElement (Name [] ''a'') []), TEndElement (Name [] ''a''),
               TEndElement (Name [] ''b'')]))
   = Inr (XNode ''a'' [] [] (Some Map.empty))"
  by (simp add: UnmarshalXML_def set_start_def zero_XNode_def attrs_of_start_def)

subsection \<open>The serializer\<close>

lemma go_Encoder_simps [simp]:
  "EncodeToken go_Encoder = go_EncodeToken"
  "Flush go_Encoder = Inr"
  "Close go_Encoder p =
     (if open_tags p \<noteq> [] then Inl (MarshalError ''xml: unclosed tag'') else Inr p)"
  "Buffer go_Encoder = written"
  by (simp_all add: go_Encoder_def)

lemma run_append:
  "run enc e (xs @ ys) = (case run enc e xs of Inl err \<Rightarrow> Inl err | Inr e' \<Rightarrow> run enc e' ys)"
  by (induction xs arbitrary: e) (auto split: sum.splits)

lemma MarshalXML_runs_calls:
  "map_sum untrace id (MarshalXML enc ord pos n e start0)
     = map_sum untrace id (run enc e (calls_of ord pos n start0))"
  "map_sum untrace id (Encode enc ord pos e v)
     = map_sum untrace id (run enc e (calls_of_child ord pos v))"
  "map_sum untrace id (encode_children enc ord pos i cs e)
     = map_sum untrace id (run enc e (calls_of_children ord pos i cs))"
proof (induction enc ord pos n e start0 and enc ord pos e v and enc ord pos i cs e
    rule: MarshalXML_Encode_encode_children.induct)
  case (1 enc ord pos n e start0)
  define start where "start = start_of n start0 (ord pos)"
  define text_step where "text_step = (\<lambda>e1.
    if xInnerText n \<noteq> [] then EncodeToken enc e1 (TCharData (xInnerText n)) else Inr e1)"
  define pre where "pre = [EncodeTokenCall (TStartElement start)]
    @ (if xInnerText n \<noteq> [] then [EncodeTokenCall (TCharData (xInnerText n))] else [])"
  define kids where "kids = calls_of_children ord pos 0 (xChildren n)"
  define post where "post = [EncodeTokenCall (TEndElement (StartName start))]
    @ (if xChildren n = [] \<and> xInnerText n = [] then [] else [FlushCall])"
  have calls: "calls_of ord pos n start0 = pre @ kids @ post"
    by (simp add: calls_of.simps Let_def pre_def kids_def post_def start_def)
  have run_calls: "run enc e (calls_of ord pos n start0) =
      (case run enc e pre of Inl err \<Rightarrow> Inl err | Inr e2 \<Rightarrow>
         (case run enc e2 kids of Inl err \<Rightarrow> Inl err | Inr e3 \<Rightarrow> run enc e3 post))"
    unfolding calls by (simp only: run_append)
  have run_pre: "run enc e pre =
      (case EncodeToken enc e (TStartElement start) of Inl err \<Rightarrow> Inl err | Inr e1 \<Rightarrow> text_step e1)"
    by (simp add: pre_def text_step_def split: sum.splits)
  show ?case
  proof (cases "EncodeToken enc e (TStartElement start)")
    case (Inl err)
    then show ?thesis
      unfolding run_calls run_pre by (simp add: MarshalXML.simps Let_def start_def [symmetric])
  next
    case e1: (Inr e1)
    show ?thesis
    proof (cases "xChildren n = [] \<and> xInnerText n = []")
      case True
      then have "kids = []" "post = [EncodeTokenCall (TEndElement (StartName start))]"
        "text_step e1 = Inr e1"
        by (simp_all add: kids_def post_def text_step_def)
      then show ?thesis
        unfolding run_calls run_pre using e1 True
        by (simp add: MarshalXML.simps Let_def start_def [symmetric] split: sum.splits)
    next
      case False
      then have post: "post = [EncodeTokenCall (TEndElement (StartName start)), FlushCall]"
        by (simp add: post_def)
      have lhs: "MarshalXML enc ord pos n e start0 =
        (case text_step e1 of Inl err \<Rightarrow> Inl (Trace err) | Inr e2 \<Rightarrow>
           (case encode_children enc ord pos 0 (xChildren n) e2 of Inl err \<Rightarrow> Inl err | Inr e3 \<Rightarrow>
              (case EncodeToken enc e3 (TEndElement (StartName start)) of
                 Inl err \<Rightarrow> Inl (Trace err) | Inr e4 \<Rightarrow> Flush enc e4)))"
      proof -
        have ne: "(xChildren n = [] \<and> xInnerText n = []) = False" using False by simp
        show ?thesis
          using e1 by (simp add: MarshalXML.simps Let_def start_def [symmetric] text_step_def ne)
      qed
      show ?thesis
      proof (cases "text_step e1")
        case (Inl err)
        then show ?thesis
          unfolding run_calls run_pre lhs using e1 by simp
      next
        case e2: (Inr e2)
        have IH: "map_sum untrace id (encode_children enc ord pos 0 (xChildren n) e2)
                   = map_sum untrace id (run enc e2 kids)"
          unfolding kids_def
          using "1.IH" [OF start_def False e1 e2 [unfolded text_step_def]] .
        show ?thesis
        proof (cases "encode_children enc ord pos 0 (xChildren n) e2")
          case (Inl err)
          then obtain err' where "run enc e2 kids = Inl err'" "untrace err' = untrace err"
            using IH by (cases "run enc e2 kids") auto
          then show ?thesis
            unfolding run_calls run_pre lhs using e1 e2 Inl by simp
        next
          case e3: (Inr e3)
          then have "run enc e2 kids = Inr e3"
            using IH by (cases "run enc e2 kids") auto
          then show ?thesis
            unfolding run_calls run_pre lhs using e1 e2 e3
            by (simp add: post split: sum.splits)
        qed
      qed
    qed
  qed
next
  case (2 enc ord pos e)
  then show ?case by (simp split: sum.splits)
next
  case (3 enc ord pos e v)
  then show ?case
    by (cases "MarshalXML enc ord pos v e default_start";
        cases "run enc e (calls_of ord pos v default_start)")
       (auto simp: run_append split: sum.splits)
next
  case (4 enc ord pos i e)
  then show ?case by simp
next
  case (5 enc ord pos i child cs e)
  then show ?case
    by (cases "Encode enc ord (pos @ [i]) e child";
        cases "run enc e (calls_of_child ord (pos @ [i]) child)")
       (auto simp: run_append split: sum.splits)
qed

text \<open>
  C3, as it holds of the code. MarshalXML surfaces every failure of the encoder: its
  result is the result of making its encoder calls in order up to the first one that
  fails, whose error it returns, wrapped by ers.Trace or as it is. Bytes and String have
  no error result: when the underlying marshalling fails, Bytes returns nil and String
  the empty string; otherwise both return the text.
\<close>

theorem serializer_error_handling:
  "map_sum untrace id (MarshalXML enc ord pos n e start0)
     = map_sum untrace id (run enc e (calls_of ord pos n start0))
 \<and> (\<forall>err. xml_Marshal enc ord e0 v = Inl err \<longrightarrow>
        Bytes enc ord e0 v = None \<and> String enc ord e0 v = [])
 \<and> (\<forall>data. xml_Marshal enc ord e0 v = Inr data \<longrightarrow>
        Bytes enc ord e0 v = Some data \<and> String enc ord e0 v = data)"
  using MarshalXML_runs_calls(1) [of enc ord pos n e start0]
  by (simp add: Bytes_def String_def)

text \<open>
  For a node without a tag the encoder rejects the start element; Bytes returns nil and
  String the empty string, and the error is gone.
\<close>

theorem Bytes_discards_error:
  "xml_Marshal go_Encoder example_order new_printer (Some untagged)
     = Inl (Trace (MarshalError ''xml: start tag with no name''))
 \<and> Bytes go_Encoder example_order new_printer (Some untagged) = None
 \<and> String go_Encoder example_order new_printer (Some untagged) = []"
  by (simp add: Bytes_def String_def xml_Marshal_def untagged_def MarshalXML.simps
      start_of_def default_start_def Let_def)

subsection \<open>Round trip\<close>



lemma range_order_keys:
  "range_order m kvs \<Longrightarrow> [] \<notin> dom m \<Longrightarrow>
   filter (\<lambda>a. Local (AttrName a) \<noteq> []) (map (\<lambda>(key, value). Attr (Name [] key) value) kvs)
     = map (\<lambda>(key, value). Attr (Name [] key) value) kvs"
proof -
  assume r: "range_order m kvs" and d: "[] \<notin> dom m"
  have "k \<noteq> []" if "(k, v) \<in> set kvs" for k v
  proof
    assume "k = []"
    then have "[] \<in> fst ` set kvs" using that by force
    then have "map_of kvs [] \<noteq> None" by (simp add: map_of_eq_None_iff)
    then show False using r d by (auto simp: range_order_def)
  qed
  then show ?thesis by (auto simp: filter_id_conv)
qed




lemma well_nested_markup_of:
  "well_nested (markup_of ord pos n start0)"
  "\<forall>m \<in> set (children_markup ord pos i cs). well_nested m"
proof (induction ord pos n start0 and ord pos i cs rule: markup_of_children_markup.induct)
  case (1 ord pos n start0)
  then show ?case by auto
next
  case (4 ord pos i c cs)
  then show ?case by (simp del: markup_of.simps)
qed simp_all

lemma marshal_writes:
  "fits ord pos n \<Longrightarrow> start0 = default_start \<Longrightarrow>
     MarshalXML go_Encoder ord pos n e start0
       = Inr (e\<lparr>written := written e @ tokens_of (markup_of ord pos n start0)\<rparr>)"
  "fits_children ord pos i cs \<Longrightarrow>
     encode_children go_Encoder ord pos i cs e
       = Inr (e\<lparr>written := written e @ concat (map tokens_of (children_markup ord pos i cs))\<rparr>)"
proof (induction ord pos n start0 and ord pos i cs arbitrary: e and e
    rule: markup_of_children_markup.induct)
  case (1 ord pos n start0)
  have tag: "xTag n \<noteq> []" and keys: "[] \<notin> dom (attrs_of n)"
    and r: "range_order (attrs_of n) (ord pos)"
    and kids: "fits_children ord pos 0 (xChildren n)"
    using "1.prems" by simp_all
  define start where "start = start_of n start0 (ord pos)"
  have name: "Local (StartName start) = xTag n"
    by (simp add: start_def start_of_def)
  have attr: "filter (\<lambda>a. Local (AttrName a) \<noteq> []) (StartAttr start) = StartAttr start"
    using range_order_keys [OF r keys] "1.prems"(2)
    by (simp add: start_def start_of_def default_start_def)
  have st: "StartElement (StartName start) (StartAttr start) = start"
    by (cases start) simp
  define e1 where "e1 = \<lparr>written = written e @ [TStartElement start],
                          open_tags = StartName start # open_tags e\<rparr>"
  have s1: "go_EncodeToken e (TStartElement start) = Inr e1"
    using tag by (simp add: name attr st e1_def)
  define e2 where "e2 = e1\<lparr>written := written e1 @
      (if xInnerText n \<noteq> [] then [TCharData (xInnerText n)] else [])\<rparr>"
  have s2: "(if xInnerText n \<noteq> [] then go_EncodeToken e1 (TCharData (xInnerText n)) else Inr e1)
      = Inr e2"
    by (simp add: e2_def)
  define e3 where "e3 = e2\<lparr>written := written e2 @
      concat (map tokens_of (children_markup ord pos 0 (xChildren n)))\<rparr>"
  have s3: "encode_children go_Encoder ord pos 0 (xChildren n) e2 = Inr e3"
    unfolding e3_def by (rule "1.IH" [OF kids])
  have s4: "go_EncodeToken e3 (TEndElement (StartName start))
      = Inr \<lparr>written = written e3 @ [TEndElement (StartName start)], open_tags = open_tags e\<rparr>"
    using tag by (simp add: name e3_def e2_def e1_def)
  have result: "\<lparr>written = written e3 @ [TEndElement (StartName start)], open_tags = open_tags e\<rparr>
      = e\<lparr>written := written e @ tokens_of (markup_of ord pos n start0)\<rparr>"
    by (simp add: e3_def e2_def e1_def start_def)
  show ?case
  proof (cases "xChildren n = [] \<and> xInnerText n = []")
    case True
    then have same: "e3 = e1" by (simp add: e3_def e2_def)
    have yes: "(xChildren n = [] \<and> xInnerText n = []) = True" using True by simp
    show ?thesis
      apply (subst MarshalXML.simps)
      apply (simp only: Let_def start_def [symmetric] go_Encoder_simps yes if_True
          s1 sum.case s4 [unfolded same] result [unfolded same])
      done
  next
    case False
    then have ne: "(xChildren n = [] \<and> xInnerText n = []) = False" by simp
    show ?thesis
      apply (subst MarshalXML.simps)
      apply (simp only: Let_def start_def [symmetric] go_Encoder_simps ne if_False
          s1 sum.case s2 s3 s4 result)
      done
  qed
next
  case (2 ord pos i)
  then show ?case by simp
next
  case (3 ord pos i cs)
  then show ?case by simp
next
  case (4 ord pos i c cs)
  have c: "fits ord (pos @ [i]) c" and cs: "fits_children ord pos (Suc i) cs"
    using "4.prems" by simp_all
  show ?case
    using "4.IH"(1) [OF c refl] "4.IH"(2) [OF cs]
    by (simp del: markup_of.simps)
qed

lemma xml_Marshal_fits:
  assumes "fits ord [] n"
  shows "xml_Marshal go_Encoder ord new_printer (Some n)
           = Inr (tokens_of (markup_of ord [] n default_start))"
proof -
  define p where "p = new_printer\<lparr>written := tokens_of (markup_of ord [] n default_start)\<rparr>"
  have enc: "Encode go_Encoder ord [] new_printer (Some n) = Inr p"
    using marshal_writes(1) [OF assms refl, of new_printer]
    by (simp add: p_def new_printer_def del: markup_of.simps)
  show ?thesis
    unfolding xml_Marshal_def enc by (simp add: p_def new_printer_def del: markup_of.simps)
qed

lemma example_fits: "fits example_order [] example_doc"
  by (simp add: example_doc_def example_order_def attrs_of_def range_order_def)

theorem serializer_error_handling_witness:
  "run go_Encoder new_printer (calls_of example_order [] untagged default_start)
     = Inl (MarshalError ''xml: start tag with no name'')
 \<and> map_sum untrace id (MarshalXML go_Encoder example_order [] untagged new_printer default_start)
     = Inl (MarshalError ''xml: start tag with no name'')
 \<and> Bytes go_Encoder example_order new_printer (Some untagged) = None
 \<and> String go_Encoder example_order new_printer (Some untagged) = []
 \<and> (\<exists>data. xml_Marshal go_Encoder example_order new_printer (Some example_doc) = Inr data
        \<and> Bytes go_Encoder example_order new_printer (Some example_doc) = Some data
        \<and> String go_Encoder example_order new_printer (Some example_doc) = data)"
proof -
  have r: "run go_Encoder new_printer (calls_of example_order [] untagged default_start)
     = Inl (MarshalError ''xml: start tag with no name'')"
    by (simp add: calls_of.simps untagged_def start_of_def default_start_def Let_def)
  have fail: "xml_Marshal go_Encoder example_order new_printer (Some untagged)
     = Inl (Trace (MarshalError ''xml: start tag with no name''))"
    by (simp add: xml_Marshal_def untagged_def MarshalXML.simps start_of_def default_start_def
        Let_def)
  obtain data where ok: "xml_Marshal go_Encoder example_order new_printer (Some example_doc) = Inr data"
    using xml_Marshal_fits [OF example_fits] by simp
  note a = serializer_error_handling [of go_Encoder example_order "[]" untagged new_printer
      default_start new_printer "Some untagged"]
  note b = serializer_error_handling [of go_Encoder example_order "[]" untagged new_printer
      default_start new_printer "Some example_doc"]
  show ?thesis
    using a b r fail ok by simp
qed






lemma read_token_misc [simp]: "read_token (misc_token m) = Inr (misc_token m)"
  by (cases m) simp_all





lemma merge_text_tag [simp]:
  "is_tag t \<Longrightarrow> merge_text (t # ts) = t # merge_text ts"
  by (cases t) simp_all

lemma merge_text_misc [simp]:
  "merge_text (misc_token m # ts) = misc_token m # merge_text ts"
  by (cases m) simp_all











lemma replicate_spaces_Nil [simp]: "(concat (replicate k ''  '') = []) = (k = 0)"
  by (cases k) simp_all



lemma lead_open_tags [simp]: "lead (p\<lparr>open_tags := ts\<rparr>) k = lead p k"
  by (simp add: lead_def)






lemma line_not_Nil [simp]: "line k \<noteq> []"
  by (simp add: line_def)

lemma TrimSpace_line [simp]: "TrimSpace (line k) = []"
proof -
  have "set (map (\<lambda>c. [c]) (line k)) \<subseteq> set space_runes"
    by (auto simp: line_def space_runes_def)
  then have "TrimSpace (concat (map (\<lambda>c. [c]) (line k))) = []"
    by (rule TrimSpace_spaces)
  moreover have "concat (map (\<lambda>c. [c]) (line k)) = line k"
    by (induction "line k") simp_all
  ultimately show ?thesis by simp
qed













lemma library_attrs:
  "attrs_of library =
     [''name'' \<mapsto> ''City Library'', ''location'' \<mapsto> ''Downtown'', ''rating'' \<mapsto> ''4.3'']"
  by (simp add: library_def attrs_of_def)

text \<open>
  C2. The attributes are emitted in the order of a range over a Go map. For the root of
  the package's marshalling test, two enumerations of the same three attributes give two
  different outputs: the output is a function of the tree and of the order the range
  takes, not of the tree alone.
\<close>

theorem attribute_order_varies:
  "range_order (attrs_of library) (order_one []) \<and> range_order (attrs_of library) (order_two [])
 \<and> xml_Marshal go_Encoder order_one new_printer (Some library)
     = Inr [TStartElement (StartElement (Name [] ''library'')
              [Attr (Name [] ''name'') ''City Library'', Attr (Name [] ''location'') ''Downtown'',
               Attr (Name [] ''rating'') ''4.3'']),
            TEndElement (Name [] ''library'')]
 \<and> xml_Marshal go_Encoder order_two new_printer (Some library)
     = Inr [TStartElement (StartElement (Name [] ''library'')
              [Attr (Name [] ''location'') ''Downtown'', Attr (Name [] ''name'') ''City Library'',
               Attr (Name [] ''rating'') ''4.3'']),
            TEndElement (Name [] ''library'')]
 \<and> xml_Marshal go_Encoder order_one new_printer (Some library)
     \<noteq> xml_Marshal go_Encoder order_two new_printer (Some library)"
proof -
  have one: "range_order (attrs_of library) (order_one [])"
    by (auto simp: library_attrs range_order_def order_one_def fun_eq_iff)
  have two: "range_order (attrs_of library) (order_two [])"
    by (auto simp: library_attrs range_order_def order_two_def fun_eq_iff)
  have m1: "xml_Marshal go_Encoder order_one new_printer (Some library)
     = Inr [TStartElement (StartElement (Name [] ''library'')
              [Attr (Name [] ''name'') ''City Library'', Attr (Name [] ''location'') ''Downtown'',
               Attr (Name [] ''rating'') ''4.3'']),
            TEndElement (Name [] ''library'')]"
    by (simp add: xml_Marshal_def library_def order_one_def MarshalXML.simps start_of_def
        default_start_def new_printer_def Let_def)
  have m2: "xml_Marshal go_Encoder order_two new_printer (Some library)
     = Inr [TStartElement (StartElement (Name [] ''library'')
              [Attr (Name [] ''location'') ''Downtown'', Attr (Name [] ''name'') ''City Library'',
               Attr (Name [] ''rating'') ''4.3'']),
            TEndElement (Name [] ''library'')]"
    by (simp add: xml_Marshal_def library_def order_two_def MarshalXML.simps start_of_def
        default_start_def new_printer_def Let_def)
  show ?thesis
    unfolding m1 m2 using one two by simp
qed

end
